theory Spec2Isabelle
  imports Main "HOL-Library.Sublist" "HOL-Library.Word"
begin

section \<open>Status values (util/status.h)\<close>

datatype StatusCode = kOk | kInternal

datatype Status = Status (code: StatusCode) (message: string)

definition OkStatus :: Status where
  "OkStatus = Status kOk []"

definition InternalError :: "string \<Rightarrow> Status" where
  "InternalError msg = Status kInternal msg"

definition ok :: "Status \<Rightarrow> bool" where
  "ok st = (code st = kOk)"

section \<open>Library functions the collector calls\<close>

text \<open>
  \<^verbatim>\<open>std::to_string(int)\<close>: the decimal rendering of a signed integer, as \<^verbatim>\<open>%d\<close> prints it.
\<close>

definition digit_char :: "nat \<Rightarrow> char" where
  "digit_char d = ''0123456789'' ! d"

function to_string_nat :: "nat \<Rightarrow> string" where
  "to_string_nat n =
     (if n < 10 then [digit_char n] else to_string_nat (n div 10) @ [digit_char (n mod 10)])"
  by pat_completeness auto
termination
  by (relation "measure (\<lambda>n. n)") auto

declare to_string_nat.simps [simp del]

definition to_string :: "int \<Rightarrow> string" where
  "to_string i = (if i < 0 then CHR ''-'' # to_string_nat (nat (- i)) else to_string_nat (nat i))"

text \<open>
  \<^verbatim>\<open>std::filesystem::path::operator/\<close> with a relative right operand, which is all the
  collector uses: a separator is inserted unless the left operand is empty or already ends
  with one. Paths are kept as their \<^verbatim>\<open>string()\<close> rendering.
\<close>

definition path_join :: "string \<Rightarrow> string \<Rightarrow> string" where
  "path_join p q = (if p = [] \<or> last p = CHR ''/'' then p @ q else p @ ''/'' @ q)"

section \<open>The operating system as the collector sees it\<close>

text \<open>
  The result of one \<^verbatim>\<open>read(2)\<close>: \<open>RData bs\<close> is a return value of \<open>length bs\<close>
  (zero for end of data) with the bytes delivered, \<open>RErr e\<close> is a return value of \<open>-1\<close>
  with \<^verbatim>\<open>errno\<close> set to \<open>e\<close>.
\<close>

datatype read_result = RData string | RErr int

text \<open>The values of \<^verbatim>\<open>errno.h\<close> on Linux.\<close>

definition EAGAIN :: int where
  "EAGAIN = 11"

definition EBADF :: int where
  "EBADF = 9"

datatype open_mode = RdOnly | RdOnlyNonblock | WrOnlyTrunc | CreatWrOnlyTrunc

text \<open>
  What becomes of one \<^verbatim>\<open>std::ofstream out(path); out << data; out.close();\<close> sequence:
  \<^item> \<open>OpenFails\<close>: the constructor cannot open the file;
  \<^item> \<open>InsertFails b n\<close>: the file is opened (and truncated), the insertion fails after \<open>n\<close>
    bytes reached the file, and the library reports it with \<^verbatim>\<open>badbit\<close> iff \<open>b\<close>;
  \<^item> \<open>CloseFails n\<close>: the insertion only filled the stream buffer, and flushing it in
    \<^verbatim>\<open>close()\<close> fails after \<open>n\<close> bytes reached the file;
  \<^item> \<open>AllWritten\<close>: every byte reached the file.
\<close>

datatype ofstream_outcome = OpenFails | InsertFails bool nat | CloseFails nat | AllWritten

text \<open>
  \<^verbatim>\<open>std::filesystem::exists\<close> and \<^verbatim>\<open>std::filesystem::create_directories\<close>, in the
  overloads without an \<^verbatim>\<open>error_code\<close> that the collector calls, answer true or false, or
  throw \<^verbatim>\<open>filesystem_error\<close> when the operating system reports an error
  (\<^verbatim>\<open>create_directories\<close> answers false only when it had no directory to create).
\<close>

datatype fs_answer = FsTrue | FsFalse | FsThrows

datatype event =
    EvOfstream string string ofstream_outcome
  | EvOpen string open_mode int
  | EvClose int
  | EvRead int read_result
  | EvWrite int string int
  | EvNprocs nat
  | EvExists string fs_answer
  | EvCreateDirs string fs_answer
  | EvSleep int

text \<open>
  The world holds what the calls change (the history of calls made so far, the table of
  open descriptors, file contents, the pending results of each per-CPU pipe, the clock in
  milliseconds) and what the environment decides (the oracles, each a function of the history
  so far, so that the same call may succeed once and fail later).

  A pipe is a finite queue of the results its next reads will give; a read on an empty queue
  would block, which a non-blocking descriptor reports as \<open>EAGAIN\<close>. Data that
  arrives between two drains is simply further down the queue, behind the result that ended
  the earlier drain. A kernel that keeps a pipe non-empty for ever, the one way the read
  loop of CopyCPUBuffer would not end, is outside the model.

  Only \<^verbatim>\<open>absl::SleepFor\<close> moves the clock; the other calls take no time. What the
  program prints on \<^verbatim>\<open>std::cout\<close> and \<^verbatim>\<open>std::cerr\<close> is not recorded.
\<close>

record world =
  history :: "event list"
  open_fds :: "(int \<times> string) list"
  file_content :: "string \<Rightarrow> string"
  pipes :: "string \<Rightarrow> read_result list"
  clock :: int
  ofstream_oracle :: "event list \<Rightarrow> string \<Rightarrow> string \<Rightarrow> ofstream_outcome"
  open_succeeds :: "event list \<Rightarrow> string \<Rightarrow> bool"
  write_oracle :: "event list \<Rightarrow> int \<Rightarrow> string \<Rightarrow> int"
  nprocs_oracle :: "event list \<Rightarrow> nat"
  exists_oracle :: "event list \<Rightarrow> string \<Rightarrow> fs_answer"
  create_dirs_oracle :: "event list \<Rightarrow> string \<Rightarrow> fs_answer"
  oversleep_oracle :: "event list \<Rightarrow> nat"

definition record_event :: "event \<Rightarrow> world \<Rightarrow> world" where
  "record_event e w = w\<lparr>history := history w @ [e]\<rparr>"

text \<open>\<^verbatim>\<open>open(2)\<close> returns the lowest descriptor that is not open, or \<open>-1\<close>.\<close>

definition lowest_free :: "(int \<times> string) list \<Rightarrow> int" where
  "lowest_free tab =
     int (hd (filter (\<lambda>n. int n \<notin> fst ` set tab) [0..<Suc (length tab)]))"

definition truncates :: "open_mode \<Rightarrow> bool" where
  "truncates m = (m = WrOnlyTrunc \<or> m = CreatWrOnlyTrunc)"

definition sys_open :: "string \<Rightarrow> open_mode \<Rightarrow> world \<Rightarrow> int \<times> world" where
  "sys_open path mode w =
     (if open_succeeds w (history w) path then
        (let fd = lowest_free (open_fds w) in
         (fd, w\<lparr>history := history w @ [EvOpen path mode fd],
                open_fds := (fd, path) # open_fds w,
                file_content := (if truncates mode then (file_content w)(path := [])
                                 else file_content w)\<rparr>))
      else (- 1, record_event (EvOpen path mode (- 1)) w))"

definition sys_close :: "int \<Rightarrow> world \<Rightarrow> world" where
  "sys_close fd w =
     w\<lparr>history := history w @ [EvClose fd],
       open_fds := filter (\<lambda>e. fst e \<noteq> fd) (open_fds w)\<rparr>"

definition sys_read :: "int \<Rightarrow> nat \<Rightarrow> world \<Rightarrow> read_result \<times> world" where
  "sys_read fd n w =
     (case map_of (open_fds w) fd of
        None \<Rightarrow> (RErr EBADF, record_event (EvRead fd (RErr EBADF)) w)
      | Some p \<Rightarrow>
          (case pipes w p of
             [] \<Rightarrow> (RErr EAGAIN, record_event (EvRead fd (RErr EAGAIN)) w)
           | RErr e # q \<Rightarrow>
               (RErr e, w\<lparr>history := history w @ [EvRead fd (RErr e)],
                          pipes := (pipes w)(p := q)\<rparr>)
           | RData bs # q \<Rightarrow>
               (if length bs \<le> n
                then (RData bs, w\<lparr>history := history w @ [EvRead fd (RData bs)],
                                  pipes := (pipes w)(p := q)\<rparr>)
                else (RData (take n bs),
                      w\<lparr>history := history w @ [EvRead fd (RData (take n bs))],
                        pipes := (pipes w)(p := RData (drop n bs) # q)\<rparr>))))"

text \<open>
  \<^verbatim>\<open>write(2)\<close> returns \<open>-1\<close> or the number of bytes it accepted, which may be fewer than
  offered; the accepted bytes are appended to the file.
\<close>

definition sys_write :: "int \<Rightarrow> string \<Rightarrow> world \<Rightarrow> int \<times> world" where
  "sys_write fd data w =
     (case map_of (open_fds w) fd of
        None \<Rightarrow> (- 1, record_event (EvWrite fd data (- 1)) w)
      | Some p \<Rightarrow>
          (let r = write_oracle w (history w) fd data;
               k = (if r < 0 then - 1 else min r (int (length data)))
           in (k, w\<lparr>history := history w @ [EvWrite fd data k],
                     file_content := (file_content w)(p := file_content w p @ take (nat k) data)\<rparr>)))"

definition get_nprocs :: "world \<Rightarrow> nat \<times> world" where
  "get_nprocs w = (let n = nprocs_oracle w (history w) in (n, record_event (EvNprocs n) w))"

definition fs_exists :: "string \<Rightarrow> world \<Rightarrow> fs_answer \<times> world" where
  "fs_exists p w = (let b = exists_oracle w (history w) p in (b, record_event (EvExists p b) w))"

definition fs_create_directories :: "string \<Rightarrow> world \<Rightarrow> fs_answer \<times> world" where
  "fs_create_directories p w =
     (let b = create_dirs_oracle w (history w) p in (b, record_event (EvCreateDirs p b) w))"

text \<open>\<^verbatim>\<open>absl::SleepFor\<close> returns no earlier than asked.\<close>

definition SleepFor :: "int \<Rightarrow> world \<Rightarrow> world" where
  "SleepFor ms w =
     w\<lparr>history := history w @ [EvSleep ms],
       clock := clock w + ms + int (oversleep_oracle w (history w))\<rparr>"

text \<open>
  The state bits of the \<^verbatim>\<open>std::ofstream\<close> after construction, insertion and
  \<^verbatim>\<open>close()\<close>, as the C++ standard fixes them: a constructor that cannot open the file
  calls \<^verbatim>\<open>setstate(failbit)\<close> (ofstream.cons); an inserter whose sentry finds the stream
  not \<^verbatim>\<open>good()\<close> generates no output and sets at most \<^verbatim>\<open>failbit\<close>
  (ostream.sentry, ostream.formatted.reqmts); \<^verbatim>\<open>close()\<close> calls
  \<^verbatim>\<open>setstate(failbit)\<close> when closing the file buffer fails, which includes a failed
  flush of the buffered bytes (ofstream.members). Only an insertion that was attempted and
  failed may set \<^verbatim>\<open>badbit\<close>, and whether it does is the library's choice.
  \<^verbatim>\<open>bad()\<close> reads \<^verbatim>\<open>badbit\<close> alone (iostate.flags). The pair returned is
  (\<^verbatim>\<open>failbit\<close>, \<^verbatim>\<open>badbit\<close>).
\<close>

definition ofstream_bits :: "ofstream_outcome \<Rightarrow> bool \<times> bool" where
  "ofstream_bits oc =
     (case oc of
        OpenFails \<Rightarrow> (True, False)
      | InsertFails b n \<Rightarrow> (True, b)
      | CloseFails n \<Rightarrow> (True, False)
      | AllWritten \<Rightarrow> (False, False))"

definition ofstream_file :: "ofstream_outcome \<Rightarrow> string \<Rightarrow> string \<Rightarrow> string" where
  "ofstream_file oc old data =
     (case oc of
        OpenFails \<Rightarrow> old
      | InsertFails b n \<Rightarrow> take n data
      | CloseFails n \<Rightarrow> take n data
      | AllWritten \<Rightarrow> data)"

definition ofstream_write :: "string \<Rightarrow> string \<Rightarrow> world \<Rightarrow> (bool \<times> bool) \<times> world" where
  "ofstream_write path data w =
     (let oc = ofstream_oracle w (history w) path data
      in (ofstream_bits oc,
          w\<lparr>history := history w @ [EvOfstream path data oc],
            file_content := (file_content w)(path := ofstream_file oc (file_content w path) data)\<rparr>))"

section \<open>FTraceTracer (util/trace.h, util/trace.cc)\<close>

text \<open>
  The fields carry the names of the class members without the trailing underscore. A member
  function becomes a function from the tracer and the world to a status, the tracer when
  the function assigns a member, and the world. Trace itself, CopyFormats,
  CopySystemTopology and CreateTar (staging and packaging, which never touch
  \<^verbatim>\<open>is_tracing_\<close>, \<^verbatim>\<open>fds_\<close> or \<^verbatim>\<open>free_fd_\<close>) are left out: a session below is
  ConfigureFTrace, CollectTrace and the destructor, in the order Trace and \<^verbatim>\<open>main\<close> run
  them.
\<close>

record tracer =
  kernel_trace_root :: string
  kernel_devices_root :: string
  output_path :: string
  buffer_size :: int
  events :: "string list"
  temp_path :: string
  is_tracing :: bool
  fds :: "(int \<times> int) list"
  free_fd :: int

text \<open>
  Where the C++ has no defined result, or leaves by an exception that nothing catches, the
  model stops with a fault: indexing \<^verbatim>\<open>fds_\<close> past its end, a scratch vector built
  from a buffer size that is not positive (the constructor throws on a negative size,
  \<^verbatim>\<open>front()\<close> of an empty vector is undefined), and a \<^verbatim>\<open>filesystem_error\<close> thrown
  while the output directory is prepared.
\<close>

datatype fault = OutOfBounds nat | BadScratchBuffer | FilesystemError

subsection \<open>WriteString\<close>

definition WriteString :: "string \<Rightarrow> string \<Rightarrow> world \<Rightarrow> Status \<times> world" where
  "WriteString path data w =
     (case ofstream_write path data w of
        ((failbit, badbit), w1) \<Rightarrow>
          if badbit then (InternalError (''Failed to write to'' @ path), w1)
          else (OkStatus, w1))"

subsection \<open>ClearCPUFDs\<close>

fun close_pairs :: "(int \<times> int) list \<Rightarrow> world \<Rightarrow> world" where
  "close_pairs [] w = w"
| "close_pairs (cpu_fds # rest) w =
     close_pairs rest (sys_close (snd cpu_fds) (sys_close (fst cpu_fds) w))"

definition ClearCPUFDs :: "tracer \<Rightarrow> world \<Rightarrow> tracer \<times> world" where
  "ClearCPUFDs s w = (s\<lparr>fds := []\<rparr>, close_pairs (fds s) w)"

subsection \<open>CopyCPUBuffer\<close>

fun pending :: "read_result \<Rightarrow> nat" where
  "pending (RData bs) = Suc (length bs)"
| "pending (RErr e) = 1"

definition backlog :: "int \<Rightarrow> world \<Rightarrow> nat" where
  "backlog fd w =
     (case map_of (open_fds w) fd of
        None \<Rightarrow> 0
      | Some p \<Rightarrow> sum_list (map pending (pipes w p)))"

function copy_loop :: "int \<Rightarrow> int \<Rightarrow> nat \<Rightarrow> world \<Rightarrow> Status \<times> world" where
  "copy_loop in_fd out_fd n w =
     (case sys_read in_fd n w of
        (RErr e, w1) \<Rightarrow>
          if e \<noteq> EAGAIN
          then (InternalError (''Unable to read cpu file '' @ to_string in_fd), w1)
          else (OkStatus, w1)
      | (RData bs, w1) \<Rightarrow>
          if bs = [] then (OkStatus, w1)
          else copy_loop in_fd out_fd n (snd (sys_write out_fd bs w1)))"
  by pat_completeness auto
termination
proof -
  have wr: "backlog fd (snd (sys_write ofd bs w)) = backlog fd w" for fd ofd bs w
    by (simp add: sys_write_def backlog_def record_event_def Let_def split: option.splits)
  have rd: "backlog fd w1 < backlog fd w"
    if "sys_read fd n w = (RData bs, w1)" and "bs \<noteq> []" for fd n w bs w1
  proof (cases "map_of (open_fds w) fd")
    case None
    with that show ?thesis by (simp add: sys_read_def)
  next
    case (Some p)
    show ?thesis
    proof (cases "pipes w p")
      case Nil
      with Some that show ?thesis by (simp add: sys_read_def)
    next
      case (Cons r q)
      show ?thesis
      proof (cases r)
        case (RErr e)
        with Some Cons that show ?thesis by (simp add: sys_read_def)
      next
        case (RData cs)
        with Some Cons that show ?thesis
          by (auto simp: sys_read_def backlog_def split: if_splits)
      qed
    qed
  qed
  show ?thesis
    by (relation "measure (\<lambda>(in_fd, out_fd, n, w). backlog in_fd w)")
       (auto simp: wr dest: rd [OF sym])
qed

declare copy_loop.simps [simp del]

definition CopyCPUBuffer :: "int \<Rightarrow> int \<Rightarrow> tracer \<Rightarrow> world \<Rightarrow> fault + (Status \<times> world)" where
  "CopyCPUBuffer in_fd out_fd s w =
     (if \<not> is_tracing s then Inr (InternalError ''Not currently in a trace'', w)
      else if buffer_size s \<le> 0 then Inl BadScratchBuffer
      else Inr (copy_loop in_fd out_fd (nat (buffer_size s)) w))"

subsection \<open>CopyCPUBuffers\<close>

fun drain_cpus :: "nat list \<Rightarrow> tracer \<Rightarrow> world \<Rightarrow> fault + (Status \<times> world)" where
  "drain_cpus [] s w = Inr (OkStatus, w)"
| "drain_cpus (i # rest) s w =
     (if i < length (fds s) then
        (case CopyCPUBuffer (fst (fds s ! i)) (snd (fds s ! i)) s w of
           Inl f \<Rightarrow> Inl f
         | Inr (status, w1) \<Rightarrow>
             if \<not> ok status then Inr (status, w1) else drain_cpus rest s w1)
      else Inl (OutOfBounds i))"

definition CopyCPUBuffers :: "tracer \<Rightarrow> world \<Rightarrow> fault + (Status \<times> world)" where
  "CopyCPUBuffers s w =
     (if \<not> is_tracing s then Inr (InternalError ''Not currently in a trace'', w)
      else (case get_nprocs w of (cpu_count, w1) \<Rightarrow> drain_cpus [0..<cpu_count] s w1))"

subsection \<open>StopTrace and the destructor\<close>

definition StopTrace :: "bool \<Rightarrow> tracer \<Rightarrow> world \<Rightarrow> fault + (Status \<times> tracer \<times> world)" where
  "StopTrace final_copy s w =
     (if \<not> is_tracing s then Inr (InternalError ''Not currently in a trace'', s, w)
      else
        (case WriteString (path_join (kernel_trace_root s) ''tracing_on'') ''0'' w of
           (status, w1) \<Rightarrow>
             if \<not> ok status
             then Inr (status, s\<lparr>is_tracing := False\<rparr>, sys_close (free_fd s) w1)
             else
               (case (if final_copy then CopyCPUBuffers s w1 else Inr (status, w1)) of
                  Inl f \<Rightarrow> Inl f
                | Inr (status2, w2) \<Rightarrow>
                    if \<not> ok status2
                    then Inr (status2, s\<lparr>is_tracing := False\<rparr>, sys_close (free_fd s) w2)
                    else
                      (case ClearCPUFDs s w2 of
                         (s3, w3) \<Rightarrow>
                           Inr (status2, s3\<lparr>is_tracing := False\<rparr>,
                                sys_close (free_fd s3) w3)))))"

definition FTraceTracer_dtor :: "tracer \<Rightarrow> world \<Rightarrow> fault + (tracer \<times> world)" where
  "FTraceTracer_dtor s w =
     (case StopTrace False s w of
        Inl f \<Rightarrow> Inl f
      | Inr (status, s1, w1) \<Rightarrow> Inr (s1, w1))"

subsection \<open>EnableEvents and ConfigureFTrace\<close>

text \<open>
  The loop of EnableEvents compares \<^verbatim>\<open>(unsigned)write(...)\<close>, the result truncated to
  32 bits, with the event's length.
\<close>

fun write_events :: "int \<Rightarrow> string \<Rightarrow> string list \<Rightarrow> world \<Rightarrow> Status \<times> world" where
  "write_events fd events_path [] w = (OkStatus, sys_close fd w)"
| "write_events fd events_path (event # rest) w =
     (case sys_write fd event w of
        (r, w1) \<Rightarrow>
          if unat (word_of_int r :: 32 word) \<noteq> length event
          then (InternalError (''Failed to write '' @ event @ '' to '' @ events_path),
                sys_close fd w1)
          else write_events fd events_path rest w1)"

definition EnableEvents :: "tracer \<Rightarrow> world \<Rightarrow> Status \<times> world" where
  "EnableEvents s w =
     (if is_tracing s then (InternalError ''Already Tracing'', w)
      else
        (let events_path = path_join (kernel_trace_root s) ''set_event'' in
         case sys_open events_path WrOnlyTrunc w of
           (fd, w1) \<Rightarrow>
             if fd < 0 then (InternalError (''Could not open '' @ events_path), w1)
             else write_events fd events_path (events s) w1))"

definition ConfigureFTrace :: "tracer \<Rightarrow> world \<Rightarrow> Status \<times> tracer \<times> world" where
  "ConfigureFTrace s w =
     (if is_tracing s then (InternalError ''Already Tracing'', s, w)
      else
        (case WriteString (path_join (kernel_trace_root s) ''tracing_on'') ''0'' w of
           (status1, w1) \<Rightarrow>
             if \<not> ok status1 then (status1, s, w1)
             else
               (case sys_open (path_join (kernel_trace_root s) ''free_buffer'') RdOnly w1 of
                  (fd, w2) \<Rightarrow>
                    let s2 = s\<lparr>free_fd := fd\<rparr> in
                    if fd < 0 then (InternalError ''unable to open free_buffer file'', s2, w2)
                    else
                      (case WriteString (path_join (kernel_trace_root s2) ''current_tracer'')
                              ''nop'' w2 of
                         (status3, w3) \<Rightarrow>
                           if \<not> ok status3 then (status3, s2, w3)
                           else
                             (case WriteString
                                     (path_join (kernel_trace_root s2) ''trace_options'')
                                     ''disable_on_free'' w3 of
                                (status4, w4) \<Rightarrow>
                                  if \<not> ok status4 then (status4, s2, w4)
                                  else
                                    (case WriteString
                                            (path_join (kernel_trace_root s2) ''buffer_size_kb'')
                                            (to_string (buffer_size s2)) w4 of
                                       (status5, w5) \<Rightarrow>
                                         if \<not> ok status5 then (status5, s2, w5)
                                         else
                                           (case EnableEvents s2 w5 of
                                              (status6, w6) \<Rightarrow>
                                                if \<not> ok status6 then (status6, s2, w6)
                                                else (OkStatus, s2, w6))))))))"

subsection \<open>CollectTrace\<close>

text \<open>
  The directory check of CollectTrace; the answer is false when the directory was absent
  and \<^verbatim>\<open>create_directories\<close> created none. When either call throws, CollectTrace
  is left by the exception and returns no status.
\<close>

definition ensure_directory :: "string \<Rightarrow> world \<Rightarrow> fault + (bool \<times> world)" where
  "ensure_directory out w =
     (case fs_exists out w of
        (present, w1) \<Rightarrow>
          (case present of
             FsThrows \<Rightarrow> Inl FilesystemError
           | FsTrue \<Rightarrow> Inr (True, w1)
           | FsFalse \<Rightarrow>
               (case fs_create_directories out w1 of
                  (made, w2) \<Rightarrow>
                    (case made of
                       FsThrows \<Rightarrow> Inl FilesystemError
                     | FsTrue \<Rightarrow> Inr (True, w2)
                     | FsFalse \<Rightarrow> Inr (False, w2)))))"

fun open_streams :: "string \<Rightarrow> nat list \<Rightarrow> tracer \<Rightarrow> world \<Rightarrow> Status \<times> tracer \<times> world" where
  "open_streams out [] s w = (OkStatus, s, w)"
| "open_streams out (i # rest) s w =
     (let cpuName = ''cpu'' @ to_string (int i);
          cpuPath = path_join (path_join (path_join (kernel_trace_root s) ''per_cpu'') cpuName)
                      ''trace_pipe_raw'';
          outPath = path_join out cpuName
      in case sys_open cpuPath RdOnlyNonblock w of
           (in_fd, w1) \<Rightarrow>
             if in_fd = - 1 then (InternalError (''Unable to open '' @ cpuPath), s, w1)
             else
               (case sys_open outPath CreatWrOnlyTrunc w1 of
                  (out_fd, w2) \<Rightarrow>
                    if out_fd = - 1 then (InternalError (''Unable to create '' @ outPath), s, w2)
                    else open_streams out rest (s\<lparr>fds := fds s @ [(in_fd, out_fd)]\<rparr>) w2))"

text \<open>
  The capture loop (the \<^verbatim>\<open>while\<close> of CollectTrace): it returns
  \<^verbatim>\<open>failedCopyStatus\<close>, which stays ok unless a drain pass failed.
\<close>

function capture_loop :: "int \<Rightarrow> tracer \<Rightarrow> world \<Rightarrow> fault + (Status \<times> world)" where
  "capture_loop deadline s w =
     (if clock w \<le> deadline then
        (case CopyCPUBuffers s w of
           Inl f \<Rightarrow> Inl f
         | Inr (status, w1) \<Rightarrow>
             if \<not> ok status then Inr (status, w1)
             else capture_loop deadline s (SleepFor 100 w1))
      else Inr (OkStatus, w))"
  by pat_completeness auto
termination
proof -
  have rd: "clock w1 = clock w" if "sys_read fd n w = (r, w1)" for fd n w r w1
    using that
    by (auto simp: sys_read_def record_event_def split: option.splits list.splits
          read_result.splits if_splits)
  have wr: "clock (snd (sys_write fd bs w)) = clock w" for fd bs w
    by (simp add: sys_write_def record_event_def Let_def split: option.splits)
  have copy: "clock w' = clock w" if "copy_loop in_fd out_fd n w = (st, w')"
    for in_fd out_fd n w st w'
    using that
  proof (induction in_fd out_fd n w rule: copy_loop.induct)
    case (1 in_fd out_fd n w)
    obtain r w1 where r: "sys_read in_fd n w = (r, w1)"
      by (cases "sys_read in_fd n w")
    note c1 = rd [OF r]
    show ?case
    proof (cases r)
      case (RErr e)
      with r "1.prems" c1 show ?thesis
        by (auto simp: copy_loop.simps [of in_fd out_fd n w] split: if_splits)
    next
      case (RData bs)
      show ?thesis
      proof (cases "bs = []")
        case True
        with r RData "1.prems" c1 show ?thesis
          by (auto simp: copy_loop.simps [of in_fd out_fd n w])
      next
        case False
        with r RData "1.prems"
        have "copy_loop in_fd out_fd n (snd (sys_write out_fd bs w1)) = (st, w')"
          by (simp add: copy_loop.simps [of in_fd out_fd n w])
        from "1.IH" [OF r [symmetric] RData False this] wr [of out_fd bs w1] c1
        show ?thesis by simp
      qed
    qed
  qed
  have drain: "clock w' = clock w" if "drain_cpus cpus s w = Inr (st, w')" for cpus s w st w'
    using that
  proof (induction cpus arbitrary: w)
    case Nil
    then show ?case by simp
  next
    case (Cons i rest)
    then show ?case
      by (auto simp: CopyCPUBuffer_def split: if_splits sum.splits prod.splits dest: copy)
  qed
  have pass: "clock w' = clock w" if "CopyCPUBuffers s w = Inr (st, w')" for s w st w'
    using that
    by (auto simp: CopyCPUBuffers_def get_nprocs_def record_event_def Let_def
          split: if_splits dest: drain)
  show ?thesis
    by (relation "measure (\<lambda>(deadline, s, w). nat (deadline + 1 - clock w))")
       (auto simp: SleepFor_def dest!: pass)
qed

declare capture_loop.simps [simp del]

text \<open>
  CollectTrace from the moment tracing is on: the capture window, the final StopTrace and
  the merge of the two failure messages.
\<close>

definition CollectTrace_capture ::
  "int \<Rightarrow> tracer \<Rightarrow> world \<Rightarrow> fault + (Status \<times> tracer \<times> world)" where
  "CollectTrace_capture capture_seconds s w =
     (let start_time = clock w;
          w1 = SleepFor 100 w
      in case capture_loop (start_time + 1000 * capture_seconds) s w1 of
           Inl f \<Rightarrow> Inl f
         | Inr (failedCopyStatus, w2) \<Rightarrow>
             (case StopTrace True s w2 of
                Inl f \<Rightarrow> Inl f
              | Inr (status, s3, w3) \<Rightarrow>
                  if \<not> ok failedCopyStatus
                  then Inr (InternalError
                              (message failedCopyStatus @ [CHR 0x0A, CHR 0x0A] @ message status),
                            s3, w3)
                  else Inr (status, s3, w3)))"

text \<open>
  CollectTrace up to the write that starts tracing: the output directory, one descriptor
  pair per CPU, \<^verbatim>\<open>tracing_on = 1\<close>. Every failure returns at once, as the code does.
\<close>

definition CollectTrace_setup :: "tracer \<Rightarrow> world \<Rightarrow> fault + (Status \<times> tracer \<times> world)" where
  "CollectTrace_setup s w =
     (let out = path_join (temp_path s) ''traces'' in
      case ensure_directory out w of
        Inl f \<Rightarrow> Inl f
      | Inr (dir_ok, w1) \<Rightarrow>
          if \<not> dir_ok
          then Inr (InternalError (''Unable to create directories for path: '' @ out), s, w1)
          else
            (case get_nprocs w1 of
               (cpu_count, w2) \<Rightarrow>
                 (case ClearCPUFDs s w2 of
                    (s3, w3) \<Rightarrow>
                      (case open_streams out [0..<cpu_count] s3 w3 of
                         (status, s4, w4) \<Rightarrow>
                           if \<not> ok status then Inr (status, s4, w4)
                           else
                             (case WriteString
                                     (path_join (kernel_trace_root s4) ''tracing_on'')
                                     ''1'' w4 of
                                (status5, w5) \<Rightarrow> Inr (status5, s4, w5))))))"

definition CollectTrace :: "int \<Rightarrow> tracer \<Rightarrow> world \<Rightarrow> fault + (Status \<times> tracer \<times> world)" where
  "CollectTrace capture_seconds s w =
     (if is_tracing s then Inr (InternalError ''Already Tracing'', s, w)
      else
        (case CollectTrace_setup s w of
           Inl f \<Rightarrow> Inl f
         | Inr (status, s1, w1) \<Rightarrow>
             if \<not> ok status then Inr (status, s1, w1)
             else CollectTrace_capture capture_seconds (s1\<lparr>is_tracing := True\<rparr>) w1))"

section \<open>Vocabulary of the statements\<close>

text \<open>A read that delivered nothing, and a read that failed for another reason than would-block.\<close>

fun no_data :: "read_result \<Rightarrow> bool" where
  "no_data (RData bs) = (bs = [])"
| "no_data (RErr e) = (e = EAGAIN)"

fun read_failed :: "read_result \<Rightarrow> bool" where
  "read_failed (RData bs) = False"
| "read_failed (RErr e) = (e \<noteq> EAGAIN)"

text \<open>
  The calls of a copy from \<open>i\<close> to \<open>out\<close>: reads on \<open>i\<close> that delivered bytes,
  each followed by the write of just those bytes to \<open>out\<close>.
\<close>

fun copied :: "int \<Rightarrow> int \<Rightarrow> event list \<Rightarrow> bool" where
  "copied i out (EvRead fd (RData bs) # EvWrite fd' bs' k # rest) =
     (fd = i \<and> fd' = out \<and> bs' = bs \<and> bs \<noteq> [] \<and> copied i out rest)"
| "copied i out [] = True"
| "copied i out evs = False"

text \<open>A history free of reads that failed for another reason than would-block.\<close>

fun failed_read :: "event \<Rightarrow> bool" where
  "failed_read (EvRead fd r) = read_failed r"
| "failed_read e = False"

definition no_failed_read :: "event list \<Rightarrow> bool" where
  "no_failed_read evs = list_all (\<lambda>e. \<not> failed_read e) evs"

text \<open>
  Every listed CPU has a stream pair whose read side is open on a pipe with nothing pending:
  the kernel produced no data since the last drain.
\<close>

definition idle_streams :: "tracer \<Rightarrow> world \<Rightarrow> nat list \<Rightarrow> bool" where
  "idle_streams s w cpus =
     list_all (\<lambda>i. i < length (fds s) \<and>
                 (case map_of (open_fds w) (fst (fds s ! i)) of
                    None \<Rightarrow> False
                  | Some p \<Rightarrow> pipes w p = [])) cpus"

definition would_block_reads :: "tracer \<Rightarrow> nat list \<Rightarrow> event list" where
  "would_block_reads s cpus = map (\<lambda>i. EvRead (fst (fds s ! i)) (RErr EAGAIN)) cpus"

text \<open>
  What a drain pass may do to the world: the descriptor table is untouched, the clock does
  not run backwards, files only grow, no descriptor is closed, the history only grows.
\<close>

definition calm_step :: "world \<Rightarrow> world \<Rightarrow> bool" where
  "calm_step w w' \<longleftrightarrow>
     open_fds w' = open_fds w \<and> clock w \<le> clock w'
     \<and> (\<forall>p. prefix (file_content w p) (file_content w' p))
     \<and> (\<forall>g. count_list (history w') (EvClose g) = count_list (history w) (EvClose g))
     \<and> prefix (history w) (history w')"

text \<open>
  The configuration as the specification words it: a list of steps, carried out in order
  until one fails. A step works on the tracer and on the descriptor of the event-selection
  file (\<^verbatim>\<open>set_event\<close>); a failed event write closes that descriptor before it reports.
\<close>

datatype control_step =
    WriteControl string string
  | AcquireGuard
  | OpenEventControl
  | EnableEvent string
  | CloseEventControl

fun perform :: "control_step \<Rightarrow> tracer \<times> int \<Rightarrow> world \<Rightarrow> Status \<times> (tracer \<times> int) \<times> world" where
  "perform (WriteControl name v) (s, efd) w =
     (case WriteString (path_join (kernel_trace_root s) name) v w of
        (st, w1) \<Rightarrow> (st, (s, efd), w1))"
| "perform AcquireGuard (s, efd) w =
     (case sys_open (path_join (kernel_trace_root s) ''free_buffer'') RdOnly w of
        (fd, w1) \<Rightarrow>
          (if fd < 0 then InternalError ''unable to open free_buffer file'' else OkStatus,
           (s\<lparr>free_fd := fd\<rparr>, efd), w1))"
| "perform OpenEventControl (s, efd) w =
     (case sys_open (path_join (kernel_trace_root s) ''set_event'') WrOnlyTrunc w of
        (fd, w1) \<Rightarrow>
          (if fd < 0
           then InternalError (''Could not open '' @ path_join (kernel_trace_root s) ''set_event'')
           else OkStatus,
           (s, fd), w1))"
| "perform (EnableEvent event) (s, efd) w =
     (case sys_write efd event w of
        (r, w1) \<Rightarrow>
          if unat (word_of_int r :: 32 word) \<noteq> length event
          then (InternalError (''Failed to write '' @ event @ '' to ''
                  @ path_join (kernel_trace_root s) ''set_event''),
                (s, efd), sys_close efd w1)
          else (OkStatus, (s, efd), w1))"
| "perform CloseEventControl (s, efd) w = (OkStatus, (s, efd), sys_close efd w)"

fun run_steps ::
  "control_step list \<Rightarrow> tracer \<times> int \<Rightarrow> world \<Rightarrow> Status \<times> (tracer \<times> int) \<times> world" where
  "run_steps [] c w = (OkStatus, c, w)"
| "run_steps (a # rest) c w =
     (case perform a c w of
        (st, c1, w1) \<Rightarrow> if \<not> ok st then (st, c1, w1) else run_steps rest c1 w1)"

definition configure_plan :: "tracer \<Rightarrow> control_step list" where
  "configure_plan s =
     [WriteControl ''tracing_on'' ''0'',
      AcquireGuard,
      WriteControl ''current_tracer'' ''nop'',
      WriteControl ''trace_options'' ''disable_on_free'',
      WriteControl ''buffer_size_kb'' (to_string (buffer_size s)),
      OpenEventControl]
     @ map EnableEvent (events s) @ [CloseEventControl]"

definition finish :: "Status \<times> (tracer \<times> int) \<times> world \<Rightarrow> Status \<times> tracer \<times> world" where
  "finish r = (fst r, fst (fst (snd r)), snd (snd r))"

text \<open>
  A call of the history with its results dropped, and the call a step is expected to make
  under a given trace root; the close a failed event write adds.
\<close>

datatype call = CWrite string string | COpen string | CEvent string | CClose | COther

fun call_of :: "event \<Rightarrow> call" where
  "call_of (EvOfstream p d oc) = CWrite p d"
| "call_of (EvOpen p m fd) = COpen p"
| "call_of (EvWrite fd d r) = CEvent d"
| "call_of (EvClose fd) = CClose"
| "call_of e = COther"

fun step_call :: "string \<Rightarrow> control_step \<Rightarrow> call" where
  "step_call root (WriteControl name v) = CWrite (path_join root name) v"
| "step_call root AcquireGuard = COpen (path_join root ''free_buffer'')"
| "step_call root OpenEventControl = COpen (path_join root ''set_event'')"
| "step_call root (EnableEvent event) = CEvent event"
| "step_call root CloseEventControl = CClose"

fun cleanup :: "control_step \<Rightarrow> call list" where
  "cleanup (EnableEvent event) = [CClose]"
| "cleanup a = []"

text \<open>
  A run of ticks of the capture loop: each world but the last is inside the deadline, its
  drain pass succeeds, and the next world is the one reached by sleeping 100 ms after
  that pass. It is stated from \<open>CopyCPUBuffers\<close> and \<open>SleepFor\<close> alone.
\<close>

fun ticks :: "int \<Rightarrow> tracer \<Rightarrow> world list \<Rightarrow> bool" where
  "ticks deadline s (w # v # rest) =
     (clock w \<le> deadline
      \<and> (case CopyCPUBuffers s w of
            Inl f \<Rightarrow> False
          | Inr (st, w1) \<Rightarrow> ok st \<and> v = SleepFor 100 w1)
      \<and> ticks deadline s (v # rest))"
| "ticks deadline s ws = True"

text \<open>
  The decimal digits of a non-negative integer, computed on \<open>int\<close>: the rendering that
  \<open>to_string\<close> gives, in a form that evaluates in binary arithmetic.
\<close>

function decimal :: "int \<Rightarrow> string" where
  "decimal n =
     (if n < 10 then [digit_char (nat n)]
      else decimal (n div 10) @ [digit_char (nat (n mod 10))])"
  by pat_completeness auto
termination
  by (relation "measure nat") auto

declare decimal.simps [simp del]

section \<open>A machine to run the collector on\<close>

text \<open>
  A host with two CPUs on which every call succeeds and the pipes are empty, with the three
  standard descriptors open, and a tracer as \<^verbatim>\<open>main\<close> constructs it (short paths and two
  events keep the terms small).
\<close>

definition calm_host :: world where
  "calm_host =
     \<lparr>history = [],
      open_fds = [(0, ''stdin''), (1, ''stdout''), (2, ''stderr'')],
      file_content = (\<lambda>p. []),
      pipes = (\<lambda>p. []),
      clock = 0,
      ofstream_oracle = (\<lambda>h p d. AllWritten),
      open_succeeds = (\<lambda>h p. True),
      write_oracle = (\<lambda>h fd d. int (length d)),
      nprocs_oracle = (\<lambda>h. 2),
      exists_oracle = (\<lambda>h p. FsFalse),
      create_dirs_oracle = (\<lambda>h p. FsTrue),
      oversleep_oracle = (\<lambda>h. 0)\<rparr>"

definition fresh_tracer :: tracer where
  "fresh_tracer =
     \<lparr>kernel_trace_root = ''/t'',
      kernel_devices_root = ''/d'',
      output_path = ''/o'',
      buffer_size = 4096,
      events = [''sched:sched_switch'', ''sched:sched_wakeup''],
      temp_path = ''/tmp'',
      is_tracing = False,
      fds = [],
      free_fd = 0\<rparr>"

text \<open>
  The same machine once the streams of both CPUs are open (guard on descriptor 3, CPU 0 on
  4 and 5, CPU 1 on 6 and 7), 100 ms into the capture, and the tracer at that moment.
\<close>

definition tracing_tracer :: tracer where
  "tracing_tracer = fresh_tracer\<lparr>is_tracing := True, fds := [(4, 5), (6, 7)], free_fd := 3\<rparr>"

definition tracing_host :: world where
  "tracing_host =
     calm_host\<lparr>open_fds :=
                 [(7, ''/tmp/traces/cpu1''), (6, ''/t/per_cpu/cpu1/trace_pipe_raw''),
                  (5, ''/tmp/traces/cpu0''), (4, ''/t/per_cpu/cpu0/trace_pipe_raw''),
                  (3, ''/t/free_buffer''),
                  (0, ''stdin''), (1, ''stdout''), (2, ''stderr'')],
               clock := 100\<rparr>"

text \<open>CPU 0 has two bytes pending; the next read of CPU 1 fails with EIO (5).\<close>

definition faulty_host :: world where
  "faulty_host =
     tracing_host\<lparr>pipes :=
       (\<lambda>p. if p = ''/t/per_cpu/cpu0/trace_pipe_raw'' then [RData ''ab'']
            else if p = ''/t/per_cpu/cpu1/trace_pipe_raw'' then [RErr 5]
            else [])\<rparr>"

text \<open>
  A capture that began when one CPU was online: the tracer holds one stream pair, and the
  host reports two CPUs by now. On \<open>broken_host\<close> the next read of CPU 0 fails with EIO.
\<close>

definition hotplug_tracer :: tracer where
  "hotplug_tracer = fresh_tracer\<lparr>is_tracing := True, fds := [(4, 5)], free_fd := 3\<rparr>"

definition hotplug_host :: world where
  "hotplug_host =
     calm_host\<lparr>open_fds :=
                 [(5, ''/tmp/traces/cpu0''), (4, ''/t/per_cpu/cpu0/trace_pipe_raw''),
                  (3, ''/t/free_buffer''),
                  (0, ''stdin''), (1, ''stdout''), (2, ''stderr'')],
               clock := 100\<rparr>"

definition broken_host :: world where
  "broken_host =
     hotplug_host\<lparr>pipes :=
       (\<lambda>p. if p = ''/t/per_cpu/cpu0/trace_pipe_raw'' then [RErr 5] else [])\<rparr>"

text \<open>
  A configured host on which a second CPU comes online right after CollectTrace has counted
  one.
\<close>

definition growing_host :: world where
  "growing_host =
     calm_host\<lparr>open_fds := (3, ''/t/free_buffer'') # open_fds calm_host,
               nprocs_oracle := (\<lambda>h. if EvNprocs 1 \<in> set h then 2 else 1)\<rparr>"

text \<open>
  A configured tracer (guard on descriptor 3) on a host where the first read of CPU 0 fails
  with EIO and every write of "0" to \<^verbatim>\<open>tracing_on\<close> fails with \<^verbatim>\<open>badbit\<close>.
\<close>

definition armed_tracer :: tracer where
  "armed_tracer = fresh_tracer\<lparr>free_fd := 3\<rparr>"

definition doomed_host :: world where
  "doomed_host =
     calm_host\<lparr>open_fds := (3, ''/t/free_buffer'') # open_fds calm_host,
               pipes := (\<lambda>p. if p = ''/t/per_cpu/cpu0/trace_pipe_raw'' then [RErr 5] else []),
               ofstream_oracle :=
                 (\<lambda>h p d. if p = ''/t/tracing_on'' \<and> d = ''0'' then InsertFails True 0
                          else AllWritten)\<rparr>"

text \<open>
  The same configured state on a host where every write succeeds and the first two reads
  of CPU 0 fail with EIO: the drain of the capture loop and the final drain of StopTrace.
\<close>

definition stubborn_host :: world where
  "stubborn_host =
     calm_host\<lparr>open_fds := (3, ''/t/free_buffer'') # open_fds calm_host,
               pipes := (\<lambda>p. if p = ''/t/per_cpu/cpu0/trace_pipe_raw'' then [RErr 5, RErr 5]
                              else [])\<rparr>"

text \<open>A host on which no control file can be opened for writing.\<close>

definition sealed_host :: world where
  "sealed_host = calm_host\<lparr>ofstream_oracle := (\<lambda>h p d. OpenFails)\<rparr>"

text \<open>
  A host on which tracing is on (\<^verbatim>\<open>tracing_on\<close> holds "1") and \<^verbatim>\<open>tracing_on\<close> alone
  cannot be opened for writing.
\<close>

definition stuck_switch_host :: world where
  "stuck_switch_host =
     calm_host\<lparr>file_content := (\<lambda>p. if p = ''/t/tracing_on'' then ''1'' else []),
               ofstream_oracle := (\<lambda>h p d. if p = ''/t/tracing_on'' then OpenFails
                                         else AllWritten)\<rparr>"

text \<open>
  Hosts on which one open of the second CPU's stream pair fails: the raw pipe
  (\<open>jammed_host\<close>) or the output file (\<open>full_disk_host\<close>).
\<close>

definition jammed_host :: world where
  "jammed_host =
     calm_host\<lparr>open_succeeds := (\<lambda>h p. p \<noteq> ''/t/per_cpu/cpu1/trace_pipe_raw'')\<rparr>"

definition full_disk_host :: world where
  "full_disk_host = calm_host\<lparr>open_succeeds := (\<lambda>h p. p \<noteq> ''/tmp/traces/cpu1'')\<rparr>"

text \<open>A host on which \<^verbatim>\<open>free_buffer\<close> cannot be opened.\<close>

definition guardless_host :: world where
  "guardless_host = calm_host\<lparr>open_succeeds := (\<lambda>h p. p \<noteq> ''/t/free_buffer'')\<rparr>"

text \<open>
  A host whose first pass copies \<open>ab\<close> from CPU 0 and finds CPU 1 idle, and whose
  second pass copies \<open>cd\<close> from CPU 0 and then fails on it, with data waiting on CPU 1.
\<close>

definition late_fault_host :: world where
  "late_fault_host =
     tracing_host\<lparr>pipes :=
       (\<lambda>p. if p = ''/t/per_cpu/cpu0/trace_pipe_raw''
              then [RData ''ab'', RErr 11, RData ''cd'', RErr 5]
            else if p = ''/t/per_cpu/cpu1/trace_pipe_raw'' then [RErr 11, RData ''xy'']
            else [])\<rparr>"

definition late_fault_tick2 :: world where
  "late_fault_tick2 =
     SleepFor 100 (snd (projr (CopyCPUBuffers tracing_tracer late_fault_host)))"




section \<open>Lemmas about the model\<close>

lemma to_string_nat_decimal: "0 \<le> n \<Longrightarrow> to_string_nat (nat n) = decimal n"
proof (induction n rule: decimal.induct)
  case (1 n)
  show ?case
  proof (cases "n < 10")
    case True
    with "1.prems" show ?thesis
      by (simp add: to_string_nat.simps [of "nat n"] decimal.simps [of n])
  next
    case False
    with "1.prems" have "to_string_nat (nat (n div 10)) = decimal (n div 10)"
      by (intro "1.IH") auto
    moreover from "1.prems" have "nat n div 10 = nat (n div 10)" "nat n mod 10 = nat (n mod 10)"
      by (simp_all add: nat_div_distrib nat_mod_distrib)
    ultimately show ?thesis using False "1.prems"
      by (simp add: to_string_nat.simps [of "nat n"] decimal.simps [of n])
  qed
qed

lemma to_string_decimal [code]:
  "to_string i = (if i < 0 then CHR ''-'' # decimal (- i) else decimal i)"
  by (simp add: to_string_def to_string_nat_decimal)

lemma sys_open_effect:
  "sys_open p m w = (fd, w1) \<Longrightarrow>
     (\<exists>r. history w1 = history w @ [EvOpen p m r]) \<and> (fd < 0 \<longrightarrow> open_fds w1 = open_fds w)"
  by (auto simp: sys_open_def record_event_def Let_def lowest_free_def split: if_splits)

lemma sys_write_effect:
  "sys_write fd d w = (r, w1) \<Longrightarrow> \<exists>k. history w1 = history w @ [EvWrite fd d k]"
  by (auto simp: sys_write_def record_event_def Let_def split: option.splits)

lemma calm_step_refl: "calm_step w w"
  by (simp add: calm_step_def)

lemma calm_step_trans: "calm_step w w1 \<Longrightarrow> calm_step w1 w2 \<Longrightarrow> calm_step w w2"
  unfolding calm_step_def by (auto intro: prefix_order.trans)

lemma sys_read_calm: "sys_read fd n w = (r, w1) \<Longrightarrow> calm_step w w1"
  by (auto simp: sys_read_def record_event_def calm_step_def
        split: option.splits list.splits read_result.splits if_splits)

lemma sys_write_calm: "calm_step w (snd (sys_write fd bs w))"
  by (auto simp: sys_write_def record_event_def calm_step_def Let_def split: option.splits)

lemma get_nprocs_calm: "get_nprocs w = (n, w1) \<Longrightarrow> calm_step w w1"
  by (auto simp: get_nprocs_def record_event_def calm_step_def Let_def)

lemma SleepFor_calm: "0 \<le> ms \<Longrightarrow> calm_step w (SleepFor ms w)"
  by (auto simp: SleepFor_def calm_step_def)

lemma copy_loop_calm: "copy_loop in_fd out_fd n w = (st, w') \<Longrightarrow> calm_step w w'"
proof (induction in_fd out_fd n w rule: copy_loop.induct)
  case (1 in_fd out_fd n w)
  obtain r w1 where r: "sys_read in_fd n w = (r, w1)"
    by (cases "sys_read in_fd n w")
  then have c1: "calm_step w w1" by (rule sys_read_calm)
  show ?case
  proof (cases r)
    case (RErr e)
    with r "1.prems" c1 show ?thesis
      by (auto simp: copy_loop.simps [of in_fd out_fd n w] split: if_splits)
  next
    case (RData bs)
    show ?thesis
    proof (cases "bs = []")
      case True
      with r RData "1.prems" c1 show ?thesis
        by (auto simp: copy_loop.simps [of in_fd out_fd n w])
    next
      case False
      with r RData "1.prems"
      have "copy_loop in_fd out_fd n (snd (sys_write out_fd bs w1)) = (st, w')"
        by (simp add: copy_loop.simps [of in_fd out_fd n w])
      from "1.IH" [OF r [symmetric] RData False this]
      have "calm_step (snd (sys_write out_fd bs w1)) w'" .
      with c1 sys_write_calm [of w1 out_fd bs] show ?thesis
        by (blast intro: calm_step_trans)
    qed
  qed
qed

lemma CopyCPUBuffer_calm: "CopyCPUBuffer in_fd out_fd s w = Inr (st, w') \<Longrightarrow> calm_step w w'"
  by (auto simp: CopyCPUBuffer_def calm_step_refl split: if_splits dest: copy_loop_calm)

lemma drain_cpus_calm: "drain_cpus cpus s w = Inr (st, w') \<Longrightarrow> calm_step w w'"
proof (induction cpus arbitrary: w)
  case Nil
  then show ?case by (simp add: calm_step_refl)
next
  case (Cons i rest)
  then show ?case
    by (auto split: if_splits sum.splits prod.splits
          dest!: CopyCPUBuffer_calm intro: calm_step_trans)
qed

lemma CopyCPUBuffers_calm: "CopyCPUBuffers s w = Inr (st, w') \<Longrightarrow> calm_step w w'"
  by (auto simp: CopyCPUBuffers_def calm_step_refl split: if_splits prod.splits
        dest!: drain_cpus_calm get_nprocs_calm intro: calm_step_trans)

lemma capture_loop_calm: "capture_loop deadline s w = Inr (st, w') \<Longrightarrow> calm_step w w'"
proof (induction deadline s w rule: capture_loop.induct)
  case (1 deadline s w)
  show ?case
  proof (cases "clock w \<le> deadline")
    case False
    with "1.prems" show ?thesis
      by (simp add: capture_loop.simps [of deadline s w] calm_step_refl)
  next
    case True
    show ?thesis
    proof (cases "CopyCPUBuffers s w")
      case (Inl f)
      with True "1.prems" show ?thesis
        by (simp add: capture_loop.simps [of deadline s w])
    next
      case (Inr res)
      obtain status w1 where res: "res = (status, w1)" by (cases res)
      have c1: "calm_step w w1" using Inr res by (auto dest: CopyCPUBuffers_calm)
      show ?thesis
      proof (cases "ok status")
        case False
        with True Inr res "1.prems" c1 show ?thesis
          by (simp add: capture_loop.simps [of deadline s w])
      next
        case ok: True
        with True Inr res "1.prems"
        have "capture_loop deadline s (SleepFor 100 w1) = Inr (st, w')"
          by (simp add: capture_loop.simps [of deadline s w])
        from "1.IH" [OF True Inr res [symmetric] _ this] ok
        have "calm_step (SleepFor 100 w1) w'" by simp
        moreover have "calm_step w1 (SleepFor 100 w1)" by (simp add: SleepFor_calm)
        ultimately show ?thesis using c1
          by (blast intro: calm_step_trans)
      qed
    qed
  qed
qed

lemma sys_read_history: "sys_read fd n w = (r, w1) \<Longrightarrow> history w1 = history w @ [EvRead fd r]"
  by (auto simp: sys_read_def record_event_def
        split: option.splits list.splits read_result.splits if_splits)

lemma sys_read_files: "sys_read fd n w = (r, w1) \<Longrightarrow> file_content w1 = file_content w"
  by (auto simp: sys_read_def record_event_def
        split: option.splits list.splits read_result.splits if_splits)

lemma copy_loop_no_data:
  assumes "sys_read in_fd n w = (r, w1)" and "no_data r"
  shows "copy_loop in_fd out_fd n w = (OkStatus, w1)"
  using assms by (cases r) (auto simp: copy_loop.simps [of in_fd out_fd n w])

lemma ok_OkStatus: "ok OkStatus"
  by (simp add: ok_def OkStatus_def)

lemma not_ok_InternalError: "\<not> ok (InternalError m)"
  by (simp add: ok_def InternalError_def)

lemma idle_streams_history [simp]:
  "idle_streams s (w\<lparr>history := h\<rparr>) cpus = idle_streams s w cpus"
  by (simp add: idle_streams_def cong: option.case_cong)

lemma drain_cpus_idle:
  assumes "is_tracing s" and "0 < buffer_size s"
  shows "idle_streams s w cpus \<Longrightarrow>
     drain_cpus cpus s w = Inr (OkStatus, w\<lparr>history := history w @ would_block_reads s cpus\<rparr>)"
proof (induction cpus arbitrary: w)
  case Nil
  then show ?case by (simp add: would_block_reads_def)
next
  case (Cons i rest)
  from Cons.prems obtain p where
    i: "i < length (fds s)" "map_of (open_fds w) (fst (fds s ! i)) = Some p" "pipes w p = []"
    and rest: "idle_streams s w rest"
    by (auto simp: idle_streams_def split: option.splits)
  let ?e = "EvRead (fst (fds s ! i)) (RErr EAGAIN)"
  let ?w1 = "w\<lparr>history := history w @ [?e]\<rparr>"
  have rd: "sys_read (fst (fds s ! i)) (nat (buffer_size s)) w = (RErr EAGAIN, ?w1)"
    using i by (simp add: sys_read_def record_event_def)
  have "copy_loop (fst (fds s ! i)) (snd (fds s ! i)) (nat (buffer_size s)) w = (OkStatus, ?w1)"
    using rd by (rule copy_loop_no_data) simp
  with assms i have
    "drain_cpus (i # rest) s w = drain_cpus rest s ?w1"
    by (simp add: CopyCPUBuffer_def ok_OkStatus)
  also have "\<dots> = Inr (OkStatus, ?w1\<lparr>history := history ?w1 @ would_block_reads s rest\<rparr>)"
    using rest by (intro Cons.IH) simp
  finally show ?case by (simp add: would_block_reads_def)
qed

lemma drain_cpus_append:
  "drain_cpus (xs @ ys) s w =
     (case drain_cpus xs s w of
        Inl f \<Rightarrow> Inl f
      | Inr (st, w1) \<Rightarrow> if \<not> ok st then Inr (st, w1) else drain_cpus ys s w1)"
proof (induction xs arbitrary: w)
  case Nil
  then show ?case by (simp add: ok_OkStatus)
next
  case (Cons i rest)
  then show ?case
    by (auto split: sum.splits prod.splits)
qed

lemma drain_cpus_in_bounds:
  assumes "is_tracing s" and "0 < buffer_size s"
  shows "\<forall>i\<in>set cpus. i < length (fds s) \<Longrightarrow> \<exists>st w'. drain_cpus cpus s w = Inr (st, w')"
proof (induction cpus arbitrary: w)
  case Nil
  then show ?case by simp
next
  case (Cons i rest)
  obtain st1 w1 where c:
    "copy_loop (fst (fds s ! i)) (snd (fds s ! i)) (nat (buffer_size s)) w = (st1, w1)"
    by (cases "copy_loop (fst (fds s ! i)) (snd (fds s ! i)) (nat (buffer_size s)) w")
  from Cons.prems have "\<exists>st w'. drain_cpus rest s w1 = Inr (st, w')"
    by (intro Cons.IH) simp
  with Cons.prems assms c show ?case
    by (auto simp: CopyCPUBuffer_def)
qed

lemma no_failed_read_simps [simp]:
  "no_failed_read []"
  "no_failed_read (e # evs) \<longleftrightarrow> \<not> failed_read e \<and> no_failed_read evs"
  "no_failed_read (xs @ ys) \<longleftrightarrow> no_failed_read xs \<and> no_failed_read ys"
  by (simp_all add: no_failed_read_def)

lemma copied_no_failed_read: "copied i out evs \<Longrightarrow> no_failed_read evs"
  by (induction i out evs rule: copied.induct) simp_all

lemma copy_loop_reads:
  "copy_loop in_fd out_fd n w = (st, w') \<Longrightarrow>
     \<exists>evs r. history w' = history w @ evs @ [EvRead in_fd r]
        \<and> copied in_fd out_fd evs
        \<and> (no_data r \<or> read_failed r)
        \<and> st = (if read_failed r
                then InternalError (''Unable to read cpu file '' @ to_string in_fd)
                else OkStatus)"
proof (induction in_fd out_fd n w rule: copy_loop.induct)
  case (1 in_fd out_fd n w)
  obtain r w1 where r: "sys_read in_fd n w = (r, w1)"
    by (cases "sys_read in_fd n w")
  note h = sys_read_history [OF r]
  show ?case
  proof (cases r)
    case (RErr e)
    with r "1.prems" h have
      "history w' = history w @ [] @ [EvRead in_fd (RErr e)] \<and> copied in_fd out_fd []
        \<and> (no_data (RErr e) \<or> read_failed (RErr e))
        \<and> st = (if read_failed (RErr e)
                then InternalError (''Unable to read cpu file '' @ to_string in_fd)
                else OkStatus)"
      by (auto simp: copy_loop.simps [of in_fd out_fd n w] split: if_splits)
    then show ?thesis by blast
  next
    case (RData bs)
    show ?thesis
    proof (cases "bs = []")
      case True
      with r RData "1.prems" h have
        "history w' = history w @ [] @ [EvRead in_fd (RData [])] \<and> copied in_fd out_fd []
          \<and> (no_data (RData []) \<or> read_failed (RData []))
          \<and> st = (if read_failed (RData [])
                  then InternalError (''Unable to read cpu file '' @ to_string in_fd)
                  else OkStatus)"
        by (auto simp: copy_loop.simps [of in_fd out_fd n w])
      then show ?thesis by blast
    next
      case False
      let ?w2 = "snd (sys_write out_fd bs w1)"
      from False r RData "1.prems"
      have "copy_loop in_fd out_fd n ?w2 = (st, w')"
        by (simp add: copy_loop.simps [of in_fd out_fd n w])
      from "1.IH" [OF r [symmetric] RData False this] obtain evs r' where
        ih: "history w' = history ?w2 @ evs @ [EvRead in_fd r']" "copied in_fd out_fd evs"
          "no_data r' \<or> read_failed r'"
          "st = (if read_failed r'
                 then InternalError (''Unable to read cpu file '' @ to_string in_fd)
                 else OkStatus)"
        by blast
      obtain k where wr: "history ?w2 = history w1 @ [EvWrite out_fd bs k]"
        using sys_write_effect [of out_fd bs w1 "fst (sys_write out_fd bs w1)" ?w2] by auto
      have "history w' = history w @ ([EvRead in_fd (RData bs), EvWrite out_fd bs k] @ evs)
              @ [EvRead in_fd r']
          \<and> copied in_fd out_fd ([EvRead in_fd (RData bs), EvWrite out_fd bs k] @ evs)"
        using ih(1,2) wr h RData False by simp
      with ih(3,4) show ?thesis by blast
    qed
  qed
qed

lemma drain_cpus_reads:
  assumes "is_tracing s"
  shows "drain_cpus cpus s w = Inr (st, w') \<Longrightarrow>
     \<exists>evs. history w' = history w @ evs
       \<and> (ok st \<longrightarrow> no_failed_read evs)
       \<and> (\<not> ok st \<longrightarrow>
            (\<exists>pre i r. evs = pre @ [EvRead (fst (fds s ! i)) r]
               \<and> no_failed_read pre \<and> read_failed r \<and> i < length (fds s)
               \<and> st = InternalError
                        (''Unable to read cpu file '' @ to_string (fst (fds s ! i)))))"
proof (induction cpus arbitrary: w)
  case Nil
  then show ?case by (auto simp: ok_OkStatus)
next
  case (Cons i rest)
  from Cons.prems have i: "i < length (fds s)"
    by (auto split: if_splits)
  let ?a = "fst (fds s ! i)" and ?b = "snd (fds s ! i)"
  from Cons.prems i assms obtain st1 w1 where
    c: "copy_loop ?a ?b (nat (buffer_size s)) w = (st1, w1)"
    and k: "if \<not> ok st1 then st = st1 \<and> w' = w1 else drain_cpus rest s w1 = Inr (st, w')"
    by (auto simp: CopyCPUBuffer_def split: if_splits prod.splits sum.splits)
  from copy_loop_reads [OF c] copied_no_failed_read obtain e1 r where
    e1: "history w1 = history w @ e1 @ [EvRead ?a r]" "no_failed_read e1"
      "no_data r \<or> read_failed r"
      "st1 = (if read_failed r
              then InternalError (''Unable to read cpu file '' @ to_string ?a)
              else OkStatus)"
    by blast
  show ?case
  proof (cases "ok st1")
    case False
    with k have e: "st = st1" "w' = w1" by simp_all
    from False e1(4) have rf: "read_failed r"
      by (auto simp: ok_OkStatus split: if_splits)
    with e1 e i have "history w' = history w @ (e1 @ [EvRead ?a r])
        \<and> \<not> ok st
        \<and> (e1 @ [EvRead ?a r] = e1 @ [EvRead ?a r]
             \<and> no_failed_read e1 \<and> read_failed r \<and> i < length (fds s)
             \<and> st = InternalError (''Unable to read cpu file '' @ to_string ?a))"
      using False by simp
    then show ?thesis by blast
  next
    case True
    with e1(3,4) have nf: "\<not> read_failed r"
      by (auto simp: not_ok_InternalError split: if_splits)
    from True k have "drain_cpus rest s w1 = Inr (st, w')" by simp
    from Cons.IH [OF this] obtain e2 where
      e2: "history w' = history w1 @ e2" "ok st \<longrightarrow> no_failed_read e2"
        "\<not> ok st \<longrightarrow>
            (\<exists>pre j r. e2 = pre @ [EvRead (fst (fds s ! j)) r]
               \<and> no_failed_read pre \<and> read_failed r \<and> j < length (fds s)
               \<and> st = InternalError
                        (''Unable to read cpu file '' @ to_string (fst (fds s ! j))))"
      by blast
    let ?e1 = "e1 @ [EvRead ?a r]"
    have clean1: "no_failed_read ?e1" using e1(2) nf by simp
    have h: "history w' = history w @ (?e1 @ e2)" using e1(1) e2(1) by simp
    show ?thesis
    proof (cases "ok st")
      case True
      with e2(2) clean1 have "no_failed_read (?e1 @ e2)" by simp
      with h True show ?thesis by blast
    next
      case False
      with e2(3) obtain pre j r' where p:
        "e2 = pre @ [EvRead (fst (fds s ! j)) r']" "no_failed_read pre" "read_failed r'"
        "j < length (fds s)"
        "st = InternalError (''Unable to read cpu file '' @ to_string (fst (fds s ! j)))"
        by blast
      have "?e1 @ e2 = (?e1 @ pre) @ [EvRead (fst (fds s ! j)) r'] \<and> no_failed_read (?e1 @ pre)"
        using p(1,2) clean1 by simp
      with h p(3,4,5) False show ?thesis by blast
    qed
  qed
qed

lemma WriteString_effect:
  "WriteString p d w = (st, w1) \<Longrightarrow>
     open_fds w1 = open_fds w \<and> clock w1 = clock w \<and> pipes w1 = pipes w
     \<and> (\<exists>oc. history w1 = history w @ [EvOfstream p d oc])
     \<and> (st = OkStatus \<or> st = InternalError (''Failed to write to'' @ p))"
  by (auto simp: WriteString_def ofstream_write_def Let_def split: prod.splits if_splits)








lemma capture_loop_failure:
  "capture_loop deadline s w = Inr (st, w') \<Longrightarrow> \<not> ok st \<Longrightarrow>
     \<exists>wt. CopyCPUBuffers s wt = Inr (st, w')"
proof (induction deadline s w rule: capture_loop.induct)
  case (1 deadline s w)
  show ?case
  proof (cases "clock w \<le> deadline")
    case False
    with "1.prems" show ?thesis
      by (simp add: capture_loop.simps [of deadline s w] ok_OkStatus)
  next
    case True
    show ?thesis
    proof (cases "CopyCPUBuffers s w")
      case (Inl f)
      with True "1.prems" show ?thesis
        by (simp add: capture_loop.simps [of deadline s w])
    next
      case (Inr res)
      obtain status w1 where res: "res = (status, w1)" by (cases res)
      show ?thesis
      proof (cases "ok status")
        case False
        with True Inr res "1.prems" show ?thesis
          by (auto simp: capture_loop.simps [of deadline s w])
      next
        case ok: True
        with True Inr res "1.prems"
        have "capture_loop deadline s (SleepFor 100 w1) = Inr (st, w')"
          by (simp add: capture_loop.simps [of deadline s w])
        from "1.IH" [OF True Inr res [symmetric] _ this "1.prems"(2)] ok
        show ?thesis by simp
      qed
    qed
  qed
qed

text \<open>WriteString reports a failure only when the insertion set \<^verbatim>\<open>badbit\<close>.\<close>

lemma WriteString_status:
  "fst (WriteString p d w)
     = (if \<exists>n. ofstream_oracle w (history w) p d = InsertFails True n
        then InternalError (''Failed to write to'' @ p) else OkStatus)"
  by (auto simp: WriteString_def ofstream_write_def ofstream_bits_def Let_def
        split: ofstream_outcome.splits)

lemma perform_effect:
  assumes "perform a c w = (st, c', w')"
  shows "kernel_trace_root (fst c') = kernel_trace_root (fst c)
    \<and> (st = OkStatus \<or> \<not> ok st)
    \<and> (\<exists>evs. history w' = history w @ evs
          \<and> map call_of evs
              = step_call (kernel_trace_root (fst c)) a # (if ok st then [] else cleanup a))"
proof (cases c)
  case (Pair s efd)
  show ?thesis
  proof (cases a)
    case (WriteControl name v)
    with Pair assms show ?thesis
      by (auto simp: ok_OkStatus not_ok_InternalError split: prod.splits
            dest!: WriteString_effect)
  next
    case AcquireGuard
    with Pair assms show ?thesis
      by (auto simp: ok_OkStatus not_ok_InternalError split: prod.splits dest!: sys_open_effect)
  next
    case OpenEventControl
    with Pair assms show ?thesis
      by (auto simp: ok_OkStatus not_ok_InternalError split: prod.splits dest!: sys_open_effect)
  next
    case (EnableEvent event)
    with Pair assms show ?thesis
      by (auto simp: ok_OkStatus not_ok_InternalError sys_close_def
            split: prod.splits if_splits dest!: sys_write_effect)
  next
    case CloseEventControl
    with Pair assms show ?thesis
      by (auto simp: ok_OkStatus sys_close_def)
  qed
qed

lemma run_steps_root:
  "run_steps steps c w = (st, c', w') \<Longrightarrow>
     kernel_trace_root (fst c') = kernel_trace_root (fst c)"
proof (induction steps arbitrary: c w)
  case Nil
  then show ?case by simp
next
  case (Cons a rest)
  obtain st1 c1 w1 where p: "perform a c w = (st1, c1, w1)"
    by (cases "perform a c w")
  from perform_effect [OF p]
  have root1: "kernel_trace_root (fst c1) = kernel_trace_root (fst c)" by simp
  show ?case
  proof (cases "ok st1")
    case False
    with p Cons.prems root1 show ?thesis by simp
  next
    case True
    with p Cons.prems have "run_steps rest c1 w1 = (st, c', w')" by simp
    from Cons.IH [OF this] root1 show ?thesis by simp
  qed
qed

lemma run_steps_ok:
  "run_steps steps c w = (st, c', w') \<Longrightarrow> ok st \<Longrightarrow>
     st = OkStatus
     \<and> (\<exists>evs. history w' = history w @ evs
           \<and> map call_of evs = map (step_call (kernel_trace_root (fst c))) steps)"
proof (induction steps arbitrary: c w)
  case Nil
  then show ?case by simp
next
  case (Cons a rest)
  obtain st1 c1 w1 where p: "perform a c w = (st1, c1, w1)"
    by (cases "perform a c w")
  have ok1: "ok st1"
  proof (rule ccontr)
    assume "\<not> ok st1"
    with p Cons.prems show False by simp
  qed
  with p Cons.prems have r: "run_steps rest c1 w1 = (st, c', w')" by simp
  from perform_effect [OF p] ok1 obtain ea where
    root1: "kernel_trace_root (fst c1) = kernel_trace_root (fst c)"
    and ea: "history w1 = history w @ ea"
      "map call_of ea = [step_call (kernel_trace_root (fst c)) a]"
    by auto
  from Cons.IH [OF r Cons.prems(2)] root1 obtain er where
    st: "st = OkStatus"
    and er: "history w' = history w1 @ er"
      "map call_of er = map (step_call (kernel_trace_root (fst c))) rest"
    by auto
  have "history w' = history w @ (ea @ er)
      \<and> map call_of (ea @ er) = map (step_call (kernel_trace_root (fst c))) (a # rest)"
    using ea er by simp
  with st show ?case by blast
qed

lemma run_steps_OkStatus: "run_steps steps c w = (st, c', w') \<Longrightarrow> ok st \<Longrightarrow> st = OkStatus"
  by (simp add: run_steps_ok)

lemma run_steps_failed:
  "run_steps steps c w = (st, c', w') \<Longrightarrow> \<not> ok st \<Longrightarrow>
     \<exists>pre a post c1 w1.
        steps = pre @ a # post
        \<and> run_steps pre c w = (OkStatus, c1, w1)
        \<and> perform a c1 w1 = (st, c', w')"
proof (induction steps arbitrary: c w)
  case Nil
  then show ?case by (simp add: ok_OkStatus)
next
  case (Cons a rest)
  obtain st1 c1 w1 where p: "perform a c w = (st1, c1, w1)"
    by (cases "perform a c w")
  show ?case
  proof (cases "ok st1")
    case False
    with p Cons.prems have "a # rest = [] @ a # rest \<and> run_steps [] c w = (OkStatus, c, w)
        \<and> perform a c w = (st, c', w')"
      by simp
    then show ?thesis by blast
  next
    case True
    with perform_effect [OF p] have ok1: "st1 = OkStatus" by simp
    from True p Cons.prems have "run_steps rest c1 w1 = (st, c', w')" by simp
    from Cons.IH [OF this Cons.prems(2)] obtain pre b post c2 w2 where b:
      "rest = pre @ b # post" "run_steps pre c1 w1 = (OkStatus, c2, w2)"
      "perform b c2 w2 = (st, c', w')"
      by blast
    have "a # rest = (a # pre) @ b # post
        \<and> run_steps (a # pre) c w = (OkStatus, c2, w2)
        \<and> perform b c2 w2 = (st, c', w')"
      using b p ok1 by (simp add: ok_OkStatus)
    then show ?thesis by blast
  qed
qed

lemma write_events_run:
  "write_events fd (path_join (kernel_trace_root s) ''set_event'') evs w
     = (case run_steps (map EnableEvent evs @ [CloseEventControl]) (s, fd) w of
          (st, c, w') \<Rightarrow> (st, w'))"
  by (induction evs arbitrary: w)
     (auto simp: ok_OkStatus not_ok_InternalError split: prod.splits)

lemma run_events_cfg:
  "run_steps (map EnableEvent evs @ [CloseEventControl]) (s, fd) w = (st, c, w') \<Longrightarrow> c = (s, fd)"
  by (induction evs arbitrary: w) (auto split: prod.splits if_splits)

lemma EnableEvents_run:
  assumes "\<not> is_tracing s"
  shows "(case EnableEvents s w of (st, w') \<Rightarrow> (st, s, w'))
     = finish (run_steps (OpenEventControl # map EnableEvent (events s) @ [CloseEventControl])
                (s, e0) w)"
proof -
  obtain fd w1 where o: "sys_open (path_join (kernel_trace_root s) ''set_event'') WrOnlyTrunc w
      = (fd, w1)"
    by (cases "sys_open (path_join (kernel_trace_root s) ''set_event'') WrOnlyTrunc w")
  show ?thesis
  proof (cases "fd < 0")
    case True
    with o assms show ?thesis
      by (simp add: EnableEvents_def finish_def not_ok_InternalError)
  next
    case False
    obtain st c w' where r:
      "run_steps (map EnableEvent (events s) @ [CloseEventControl]) (s, fd) w1 = (st, c, w')"
      by (cases "run_steps (map EnableEvent (events s) @ [CloseEventControl]) (s, fd) w1")
    from run_events_cfg [OF r] have c: "c = (s, fd)" .
    with False o assms r show ?thesis
      by (simp add: EnableEvents_def finish_def ok_OkStatus write_events_run)
  qed
qed

lemma EnableEvents_status:
  assumes "\<not> is_tracing s" and "EnableEvents s w = (st, w')" and "ok st"
  shows "st = OkStatus"
proof -
  from EnableEvents_run [OF assms(1), of w "- 1"] assms(2)
  obtain c where
    "run_steps (OpenEventControl # map EnableEvent (events s) @ [CloseEventControl]) (s, - 1) w
       = (st, c, w')"
    by (cases "run_steps (OpenEventControl # map EnableEvent (events s) @ [CloseEventControl])
                 (s, - 1) w") (auto simp: finish_def)
  from run_steps_OkStatus [OF this assms(3)] show ?thesis .
qed

lemma ConfigureFTrace_run:
  assumes "\<not> is_tracing s"
  shows "ConfigureFTrace s w = finish (run_steps (configure_plan s) (s, e0) w)"
proof -
  let ?P = "path_join (kernel_trace_root s)"
  let ?tail = "OpenEventControl # map EnableEvent (events s) @ [CloseEventControl]"
  obtain st1 w1 where s1: "WriteString (?P ''tracing_on'') ''0'' w = (st1, w1)"
    by (cases "WriteString (?P ''tracing_on'') ''0'' w")
  obtain fd w2 where s2: "sys_open (?P ''free_buffer'') RdOnly w1 = (fd, w2)"
    by (cases "sys_open (?P ''free_buffer'') RdOnly w1")
  let ?s2 = "s\<lparr>free_fd := fd\<rparr>"
  obtain st3 w3 where s3: "WriteString (?P ''current_tracer'') ''nop'' w2 = (st3, w3)"
    by (cases "WriteString (?P ''current_tracer'') ''nop'' w2")
  obtain st4 w4 where s4: "WriteString (?P ''trace_options'') ''disable_on_free'' w3 = (st4, w4)"
    by (cases "WriteString (?P ''trace_options'') ''disable_on_free'' w3")
  obtain st5 w5 where s5:
    "WriteString (?P ''buffer_size_kb'') (to_string (buffer_size s)) w4 = (st5, w5)"
    by (cases "WriteString (?P ''buffer_size_kb'') (to_string (buffer_size s)) w4")
  obtain st6 w6 where s6: "EnableEvents ?s2 w5 = (st6, w6)"
    by (cases "EnableEvents ?s2 w5")
  have nt: "\<not> is_tracing ?s2" using assms by simp
  have ev: "finish (run_steps ?tail (?s2, e0) w5) = (st6, ?s2, w6)"
    using EnableEvents_run [OF nt, of w5 e0] s6 by simp
  have st6: "ok st6 \<Longrightarrow> st6 = OkStatus"
    using EnableEvents_status [OF nt s6] .
  have run: "run_steps (configure_plan s) (s, e0) w =
    (if \<not> ok st1 then (st1, (s, e0), w1)
     else if fd < 0 then (InternalError ''unable to open free_buffer file'', (?s2, e0), w2)
     else if \<not> ok st3 then (st3, (?s2, e0), w3)
     else if \<not> ok st4 then (st4, (?s2, e0), w4)
     else if \<not> ok st5 then (st5, (?s2, e0), w5)
     else run_steps ?tail (?s2, e0) w5)"
    using s1 s2 s3 s4 s5
    by (simp add: configure_plan_def ok_OkStatus not_ok_InternalError del: run_steps.simps(2)
          add: run_steps.simps(2) [of "WriteControl a b" for a b]
               run_steps.simps(2) [of AcquireGuard])
  have conf: "ConfigureFTrace s w =
    (if \<not> ok st1 then (st1, s, w1)
     else if fd < 0 then (InternalError ''unable to open free_buffer file'', ?s2, w2)
     else if \<not> ok st3 then (st3, ?s2, w3)
     else if \<not> ok st4 then (st4, ?s2, w4)
     else if \<not> ok st5 then (st5, ?s2, w5)
     else if \<not> ok st6 then (st6, ?s2, w6)
     else (OkStatus, ?s2, w6))"
    using assms s1 s2 s3 s4 s5 s6
    by (simp add: ConfigureFTrace_def Let_def)
  show ?thesis
    unfolding run conf using ev st6 by (auto simp: finish_def)
qed

text \<open>
  The states used as examples are the ones the program reaches: on the calm host,
  ConfigureFTrace and the opening phase of CollectTrace leave the guard on descriptor 3
  and the stream pairs on 4, 5 and 6, 7.
\<close>

lemma example_state_reached:
  "fst (ConfigureFTrace fresh_tracer calm_host) = OkStatus
   \<and> free_fd (fst (snd (ConfigureFTrace fresh_tracer calm_host))) = free_fd tracing_tracer
   \<and> open_fds (snd (snd (ConfigureFTrace fresh_tracer calm_host))) = open_fds doomed_host
   \<and> \<not> isl (CollectTrace_setup armed_tracer doomed_host)
   \<and> fst (projr (CollectTrace_setup armed_tracer doomed_host)) = OkStatus
   \<and> fds (fst (snd (projr (CollectTrace_setup armed_tracer doomed_host)))) = fds tracing_tracer
   \<and> open_fds (snd (snd (projr (CollectTrace_setup armed_tracer doomed_host)))) = open_fds tracing_host"
  by code_simp

text \<open>
  The hot-plug state is reached as well: when the second CPU appears after the streams were
  opened, the tracer holds the one pair of \<open>hotplug_tracer\<close>, and the first drain pass of
  CollectTrace indexes \<open>fds\<close> at 1.
\<close>

lemma hotplug_state_reached:
  "\<not> isl (CollectTrace_setup armed_tracer growing_host)
   \<and> fst (projr (CollectTrace_setup armed_tracer growing_host)) = OkStatus
   \<and> fds (fst (snd (projr (CollectTrace_setup armed_tracer growing_host)))) = fds hotplug_tracer
   \<and> open_fds (snd (snd (projr (CollectTrace_setup armed_tracer growing_host)))) = open_fds hotplug_host
   \<and> isl (CollectTrace 1 armed_tracer growing_host)
   \<and> projl (CollectTrace 1 armed_tracer growing_host) = OutOfBounds 1"
  by code_simp

lemma ticks_step:
  assumes "ticks deadline s (w # v # rest)"
  shows "clock w \<le> deadline"
    and "\<exists>st w1. CopyCPUBuffers s w = Inr (st, w1) \<and> ok st \<and> v = SleepFor 100 w1"
    and "ticks deadline s (v # rest)"
  using assms by (auto split: sum.splits)

lemma capture_loop_ticks:
  "ticks deadline s (w # ws) \<Longrightarrow>
     capture_loop deadline s w = capture_loop deadline s (last (w # ws))"
proof (induction ws arbitrary: w)
  case Nil
  then show ?case by simp
next
  case (Cons v rest)
  from ticks_step [OF Cons.prems] obtain st w1 where
    s: "clock w \<le> deadline" "CopyCPUBuffers s w = Inr (st, w1)" "ok st" "v = SleepFor 100 w1"
      "ticks deadline s (v # rest)"
    by blast
  from s(1-4) have "capture_loop deadline s w = capture_loop deadline s v"
    by (simp add: capture_loop.simps [of deadline s w])
  with Cons.IH [OF s(5)] show ?case by simp
qed

lemma ticks_calm:
  "ticks deadline s (w # ws) \<Longrightarrow> v \<in> set (w # ws) \<Longrightarrow> calm_step v (last (w # ws))"
proof (induction ws arbitrary: w v)
  case Nil
  then show ?case by (simp add: calm_step_refl)
next
  case (Cons u rest)
  from ticks_step [OF Cons.prems(1)] obtain st w1 where
    s: "CopyCPUBuffers s w = Inr (st, w1)" "u = SleepFor 100 w1" "ticks deadline s (u # rest)"
    by blast
  have wu: "calm_step w u"
    using CopyCPUBuffers_calm [OF s(1)] SleepFor_calm [of 100 w1] s(2)
    by (auto intro: calm_step_trans)
  have ul: "calm_step u (last (u # rest))"
    using Cons.IH [OF s(3), of u] by simp
  show ?case
  proof (cases "v = w")
    case True
    with wu ul show ?thesis by (auto intro: calm_step_trans)
  next
    case False
    with Cons.prems(2) have "v \<in> set (u # rest)" by simp
    from Cons.IH [OF s(3) this] show ?thesis by simp
  qed
qed

lemma capture_loop_failed_ticks:
  "capture_loop deadline s w = Inr (st, w') \<Longrightarrow> \<not> ok st \<Longrightarrow>
     \<exists>ws. ticks deadline s (w # ws) \<and> clock (last (w # ws)) \<le> deadline
        \<and> CopyCPUBuffers s (last (w # ws)) = Inr (st, w')"
proof (induction deadline s w rule: capture_loop.induct)
  case (1 deadline s w)
  show ?case
  proof (cases "clock w \<le> deadline")
    case False
    with "1.prems" show ?thesis
      by (simp add: capture_loop.simps [of deadline s w] ok_OkStatus)
  next
    case True
    show ?thesis
    proof (cases "CopyCPUBuffers s w")
      case (Inl f)
      with True "1.prems" show ?thesis
        by (simp add: capture_loop.simps [of deadline s w])
    next
      case (Inr res)
      obtain status w1 where res: "res = (status, w1)" by (cases res)
      show ?thesis
      proof (cases "ok status")
        case False
        with True Inr res "1.prems" have "CopyCPUBuffers s w = Inr (st, w')"
          by (simp add: capture_loop.simps [of deadline s w])
        with True have "ticks deadline s (w # []) \<and> clock (last (w # [])) \<le> deadline
            \<and> CopyCPUBuffers s (last (w # [])) = Inr (st, w')"
          by simp
        then show ?thesis by blast
      next
        case ok: True
        let ?v = "SleepFor 100 w1"
        from ok True Inr res "1.prems"
        have "capture_loop deadline s ?v = Inr (st, w')"
          by (simp add: capture_loop.simps [of deadline s w])
        from "1.IH" [OF True Inr res [symmetric] _ this "1.prems"(2)] ok obtain ws where
          ws: "ticks deadline s (?v # ws)" "clock (last (?v # ws)) \<le> deadline"
            "CopyCPUBuffers s (last (?v # ws)) = Inr (st, w')"
          by auto
        have "ticks deadline s (w # ?v # ws)"
          using ws(1) True Inr res ok by simp
        moreover have "last (w # ?v # ws) = last (?v # ws)" by simp
        ultimately have "ticks deadline s (w # (?v # ws))
            \<and> clock (last (w # (?v # ws))) \<le> deadline
            \<and> CopyCPUBuffers s (last (w # (?v # ws))) = Inr (st, w')"
          using ws(2,3) by simp
        then show ?thesis by blast
      qed
    qed
  qed
qed

lemma CollectTrace_filesystem_error:
  assumes "\<not> is_tracing s"
    and "exists_oracle w (history w) (path_join (temp_path s) ''traces'') = FsFalse"
    and "create_dirs_oracle w
           (history w @ [EvExists (path_join (temp_path s) ''traces'') FsFalse])
           (path_join (temp_path s) ''traces'') = FsThrows"
  shows "CollectTrace capture_seconds s w = Inl FilesystemError"
  using assms
  by (simp add: CollectTrace_def CollectTrace_setup_def ensure_directory_def fs_exists_def
        fs_create_directories_def record_event_def Let_def)

















section \<open>The claims\<close>

text \<open>
  C1 (the code at the failing input). On a two-CPU host where opening the second CPU's raw
  pipe fails, CollectTrace returns "Unable to open ..." at once; after the destructor has
  run, the guard (3) and both descriptors of CPU 0 (4, 5) are still open and none of them
  was ever closed. When it is the output file of the second CPU that cannot be created, the
  read side just opened (6) stays open as well and is not even recorded in \<open>fds\<close>.
\<close>

theorem CollectTrace_open_failure_leaks:
  "(case ConfigureFTrace fresh_tracer jammed_host of
      (st0, s1, w1) \<Rightarrow>
        ok st0 \<and>
        (case CollectTrace 1 s1 w1 of
           Inl f \<Rightarrow> False
         | Inr (st, s2, w2) \<Rightarrow>
             st = InternalError ''Unable to open /t/per_cpu/cpu1/trace_pipe_raw''
             \<and> (case FTraceTracer_dtor s2 w2 of
                  Inl f \<Rightarrow> False
                | Inr (s3, w3) \<Rightarrow>
                    open_fds w3
                      = [(5, ''/tmp/traces/cpu0''), (4, ''/t/per_cpu/cpu0/trace_pipe_raw''),
                         (3, ''/t/free_buffer''),
                         (0, ''stdin''), (1, ''stdout''), (2, ''stderr'')]
                    \<and> fds s3 = [(4, 5)] \<and> free_fd s3 = 3
                    \<and> count_list (history w3) (EvClose 3) = 0
                    \<and> count_list (history w3) (EvClose 5) = 0)))
   \<and> (case ConfigureFTrace fresh_tracer full_disk_host of
      (st0, s1, w1) \<Rightarrow>
        ok st0 \<and>
        (case CollectTrace 1 s1 w1 of
           Inl f \<Rightarrow> False
         | Inr (st, s2, w2) \<Rightarrow>
             st = InternalError ''Unable to create /tmp/traces/cpu1''
             \<and> (case FTraceTracer_dtor s2 w2 of
                  Inl f \<Rightarrow> False
                | Inr (s3, w3) \<Rightarrow>
                    open_fds w3
                      = [(6, ''/t/per_cpu/cpu1/trace_pipe_raw''),
                         (5, ''/tmp/traces/cpu0''), (4, ''/t/per_cpu/cpu0/trace_pipe_raw''),
                         (3, ''/t/free_buffer''),
                         (0, ''stdin''), (1, ''stdout''), (2, ''stderr'')]
                    \<and> fds s3 = [(4, 5)])))"
  by code_simp

text \<open>
  C2. In a run of CollectTrace that reaches the capture loop, if the loop ends with a
  failed drain pass (status \<open>dst\<close>) and the StopTrace that follows returns the failure
  \<open>sst\<close>, then CollectTrace returns a non-ok status whose message is the message of
  \<open>dst\<close>, two newlines, and the message of \<open>sst\<close>: both are contained in it.
\<close>

theorem CollectTrace_reports_both_failures:
  assumes "\<not> is_tracing s"
    and "CollectTrace_setup s w = Inr (st0, s1, w1)" and "ok st0"
    and "capture_loop (clock w1 + 1000 * capture_seconds) (s1\<lparr>is_tracing := True\<rparr>)
           (SleepFor 100 w1) = Inr (dst, w2)"
    and "\<not> ok dst"
    and "StopTrace True (s1\<lparr>is_tracing := True\<rparr>) w2 = Inr (sst, s3, w3)"
    and "\<not> ok sst"
  shows "(\<exists>wt. CopyCPUBuffers (s1\<lparr>is_tracing := True\<rparr>) wt = Inr (dst, w2))
    \<and> (\<exists>st. CollectTrace capture_seconds s w = Inr (st, s3, w3)
          \<and> \<not> ok st
          \<and> message st = message dst @ [CHR 0x0A, CHR 0x0A] @ message sst
          \<and> sublist (message dst) (message st)
          \<and> sublist (message sst) (message st))"
proof
  from capture_loop_failure [OF assms(4,5)]
  show "\<exists>wt. CopyCPUBuffers (s1\<lparr>is_tracing := True\<rparr>) wt = Inr (dst, w2)" .
next
  let ?st = "InternalError (message dst @ [CHR 0x0A, CHR 0x0A] @ message sst)"
  from assms have "CollectTrace capture_seconds s w = Inr (?st, s3, w3)"
    by (simp add: CollectTrace_def CollectTrace_capture_def Let_def)
  moreover have "message ?st = message dst @ [CHR 0x0A, CHR 0x0A] @ message sst"
    by (simp add: InternalError_def)
  moreover have "sublist (message sst) (message dst @ [CHR 0x0A, CHR 0x0A] @ message sst)"
    using sublist_append_leftI [of "message sst" "message dst @ [CHR 0x0A, CHR 0x0A]"]
    by simp
  ultimately show "\<exists>st. CollectTrace capture_seconds s w = Inr (st, s3, w3)
          \<and> \<not> ok st
          \<and> message st = message dst @ [CHR 0x0A, CHR 0x0A] @ message sst
          \<and> sublist (message dst) (message st)
          \<and> sublist (message sst) (message st)"
    by (auto simp: not_ok_InternalError intro!: exI [of _ ?st])
qed

theorem CollectTrace_reports_both_failures_witness:
  "\<not> is_tracing armed_tracer
   \<and> (\<exists>st s3 w3. CollectTrace 1 armed_tracer doomed_host = Inr (st, s3, w3)
         \<and> \<not> ok st
         \<and> message st = ''Unable to read cpu file 4'' @ [CHR 0x0A, CHR 0x0A]
                          @ ''Failed to write to/t/tracing_on'')
   \<and> (\<exists>st s3 w3. CollectTrace 1 armed_tracer stubborn_host = Inr (st, s3, w3)
         \<and> \<not> ok st
         \<and> message st = ''Unable to read cpu file 4'' @ [CHR 0x0A, CHR 0x0A]
                          @ ''Unable to read cpu file 4'')"
proof -
  let ?s = armed_tracer
  have nt: "\<not> is_tracing ?s" by code_simp
  have first: "\<exists>st s3 w3. CollectTrace 1 armed_tracer doomed_host = Inr (st, s3, w3)
         \<and> \<not> ok st
         \<and> message st = ''Unable to read cpu file 4'' @ [CHR 0x0A, CHR 0x0A]
                          @ ''Failed to write to/t/tracing_on''"
  proof -
    let ?w = doomed_host
    let ?su = "projr (CollectTrace_setup ?s ?w)"
    let ?s1 = "(fst (snd ?su))\<lparr>is_tracing := True\<rparr>"
    let ?w1 = "snd (snd ?su)"
    let ?lp = "capture_loop (clock ?w1 + 1000 * 1) ?s1 (SleepFor 100 ?w1)"
    let ?sp = "StopTrace True ?s1 (snd (projr ?lp))"
    have "\<not> isl (CollectTrace_setup ?s ?w)" by code_simp
    then have su: "CollectTrace_setup ?s ?w = Inr (fst ?su, fst (snd ?su), ?w1)" by simp
    have ok0: "ok (fst ?su)" by code_simp
    have lp: "\<not> isl ?lp" "\<not> ok (fst (projr ?lp))"
      "message (fst (projr ?lp)) = ''Unable to read cpu file 4''"
      by code_simp+
    then have lp': "?lp = Inr (fst (projr ?lp), snd (projr ?lp))" by simp
    have sp: "\<not> isl ?sp" "\<not> ok (fst (projr ?sp))"
      "message (fst (projr ?sp)) = ''Failed to write to/t/tracing_on''"
      by code_simp+
    then have sp': "?sp = Inr (fst (projr ?sp), fst (snd (projr ?sp)), snd (snd (projr ?sp)))"
      by simp
    from CollectTrace_reports_both_failures [OF nt su ok0 lp' lp(2) sp' sp(2)] lp(3) sp(3)
    show ?thesis by auto
  qed
  have second: "\<exists>st s3 w3. CollectTrace 1 armed_tracer stubborn_host = Inr (st, s3, w3)
         \<and> \<not> ok st
         \<and> message st = ''Unable to read cpu file 4'' @ [CHR 0x0A, CHR 0x0A]
                          @ ''Unable to read cpu file 4''"
  proof -
    let ?w = stubborn_host
    let ?su = "projr (CollectTrace_setup ?s ?w)"
    let ?s1 = "(fst (snd ?su))\<lparr>is_tracing := True\<rparr>"
    let ?w1 = "snd (snd ?su)"
    let ?lp = "capture_loop (clock ?w1 + 1000 * 1) ?s1 (SleepFor 100 ?w1)"
    let ?sp = "StopTrace True ?s1 (snd (projr ?lp))"
    have "\<not> isl (CollectTrace_setup ?s ?w)" by code_simp
    then have su: "CollectTrace_setup ?s ?w = Inr (fst ?su, fst (snd ?su), ?w1)" by simp
    have ok0: "ok (fst ?su)" by code_simp
    have lp: "\<not> isl ?lp" "\<not> ok (fst (projr ?lp))"
      "message (fst (projr ?lp)) = ''Unable to read cpu file 4''"
      by code_simp+
    then have lp': "?lp = Inr (fst (projr ?lp), snd (projr ?lp))" by simp
    have sp: "\<not> isl ?sp" "\<not> ok (fst (projr ?sp))"
      "message (fst (projr ?sp)) = ''Unable to read cpu file 4''"
      by code_simp+
    then have sp': "?sp = Inr (fst (projr ?sp), fst (snd (projr ?sp)), snd (snd (projr ?sp)))"
      by simp
    from CollectTrace_reports_both_failures [OF nt su ok0 lp' lp(2) sp' sp(2)] lp(3) sp(3)
    show ?thesis by auto
  qed
  from nt first second show ?thesis by blast
qed

text \<open>
  C3. While tracing (with the positive buffer size the configuration requires), a call of
  CopyCPUBuffer returns; if its first read delivers no data (a return of 0, or -1 with
  EAGAIN) the call makes that one read, appends nothing to any file and returns ok. The
  calls of any CopyCPUBuffer are reads that delivered bytes, each followed by the write of
  those bytes, and then one last read: the call returns ok exactly when that read delivered
  no data, after which nothing more is written, and an error exactly when it failed with
  another error than EAGAIN. Hence a whole drain pass over streams with nothing pending (a
  tick without new kernel data) makes one would-block read per CPU, appends nothing and
  returns ok.
\<close>

theorem CopyCPUBuffer_no_data:
  assumes "is_tracing s" and "0 < buffer_size s"
  shows "(\<exists>st w'. CopyCPUBuffer in_fd out_fd s w = Inr (st, w'))
    \<and> (\<forall>r w1. sys_read in_fd (nat (buffer_size s)) w = (r, w1) \<and> no_data r \<longrightarrow>
          CopyCPUBuffer in_fd out_fd s w = Inr (OkStatus, w1)
          \<and> file_content w1 = file_content w
          \<and> history w1 = history w @ [EvRead in_fd r])
    \<and> (\<forall>st w'. CopyCPUBuffer in_fd out_fd s w = Inr (st, w') \<longrightarrow>
          (\<exists>evs r. history w' = history w @ evs @ [EvRead in_fd r]
             \<and> copied in_fd out_fd evs
             \<and> (ok st \<longleftrightarrow> no_data r) \<and> (\<not> ok st \<longleftrightarrow> read_failed r)))
    \<and> (\<forall>n w1. get_nprocs w = (n, w1) \<and> idle_streams s w [0..<n] \<longrightarrow>
          (\<exists>w'. CopyCPUBuffers s w = Inr (OkStatus, w')
             \<and> file_content w' = file_content w
             \<and> history w' = history w @ EvNprocs n # would_block_reads s [0..<n]))"
proof (intro conjI allI impI)
  show "\<exists>st w'. CopyCPUBuffer in_fd out_fd s w = Inr (st, w')"
    using assms by (cases "copy_loop in_fd out_fd (nat (buffer_size s)) w")
      (simp add: CopyCPUBuffer_def)
next
  fix r w1
  assume a: "sys_read in_fd (nat (buffer_size s)) w = (r, w1) \<and> no_data r"
  with assms show "CopyCPUBuffer in_fd out_fd s w = Inr (OkStatus, w1)"
    by (simp add: CopyCPUBuffer_def copy_loop_no_data)
  from a show "file_content w1 = file_content w"
    by (auto dest: sys_read_files)
  from a show "history w1 = history w @ [EvRead in_fd r]"
    by (auto dest: sys_read_history)
next
  fix st w'
  assume "CopyCPUBuffer in_fd out_fd s w = Inr (st, w')"
  with assms have "copy_loop in_fd out_fd (nat (buffer_size s)) w = (st, w')"
    by (simp add: CopyCPUBuffer_def)
  from copy_loop_reads [OF this] obtain evs r where
    r: "history w' = history w @ evs @ [EvRead in_fd r]" "copied in_fd out_fd evs"
      "no_data r \<or> read_failed r"
      "st = (if read_failed r
             then InternalError (''Unable to read cpu file '' @ to_string in_fd)
             else OkStatus)"
    by blast
  have "no_data r \<longleftrightarrow> \<not> read_failed r" using r(3) by (cases r) auto
  with r(4) have "(ok st \<longleftrightarrow> no_data r) \<and> (\<not> ok st \<longleftrightarrow> read_failed r)"
    by (auto simp: ok_OkStatus not_ok_InternalError)
  with r(1,2) show "\<exists>evs r. history w' = history w @ evs @ [EvRead in_fd r]
             \<and> copied in_fd out_fd evs
             \<and> (ok st \<longleftrightarrow> no_data r) \<and> (\<not> ok st \<longleftrightarrow> read_failed r)"
    by blast
next
  fix n w1
  assume a: "get_nprocs w = (n, w1) \<and> idle_streams s w [0..<n]"
  then have w1: "w1 = w\<lparr>history := history w @ [EvNprocs n]\<rparr>"
    by (auto simp: get_nprocs_def record_event_def Let_def)
  with a have "idle_streams s w1 [0..<n]" by simp
  from drain_cpus_idle [OF assms this] a assms
  have "CopyCPUBuffers s w
      = Inr (OkStatus, w1\<lparr>history := history w1 @ would_block_reads s [0..<n]\<rparr>)"
    by (simp add: CopyCPUBuffers_def)
  with w1 show "\<exists>w'. CopyCPUBuffers s w = Inr (OkStatus, w')
             \<and> file_content w' = file_content w
             \<and> history w' = history w @ EvNprocs n # would_block_reads s [0..<n]"
    by simp
qed

theorem CopyCPUBuffer_no_data_witness:
  "is_tracing tracing_tracer \<and> 0 < buffer_size tracing_tracer
   \<and> no_data (fst (sys_read 4 (nat (buffer_size tracing_tracer)) tracing_host))
   \<and> CopyCPUBuffer 4 5 tracing_tracer tracing_host
       = Inr (OkStatus, snd (sys_read 4 (nat (buffer_size tracing_tracer)) tracing_host))
   \<and> history (snd (sys_read 4 (nat (buffer_size tracing_tracer)) tracing_host))
       = [EvRead 4 (RErr EAGAIN)]
   \<and> idle_streams tracing_tracer tracing_host [0..<fst (get_nprocs tracing_host)]
   \<and> (\<exists>w'. CopyCPUBuffers tracing_tracer tracing_host = Inr (OkStatus, w')
         \<and> file_content w' = file_content tracing_host
         \<and> history w' = [EvNprocs 2, EvRead 4 (RErr EAGAIN), EvRead 6 (RErr EAGAIN)])
   \<and> \<not> ok (fst (projr (CopyCPUBuffer 6 7 tracing_tracer faulty_host)))
   \<and> (\<exists>evs r. history (snd (projr (CopyCPUBuffer 6 7 tracing_tracer faulty_host)))
            = history faulty_host @ evs @ [EvRead 6 r] \<and> read_failed r)"
proof -
  let ?f = "CopyCPUBuffer 6 7 tracing_tracer faulty_host"
  have f: "\<not> isl ?f" "\<not> ok (fst (projr ?f))" by code_simp+
  then have f': "?f = Inr (fst (projr ?f), snd (projr ?f))" by simp
  let ?n = "nat (buffer_size tracing_tracer)"
  have t: "is_tracing tracing_tracer" and b: "0 < buffer_size tracing_tracer"
    by code_simp+
  have nd: "no_data (fst (sys_read 4 ?n tracing_host))"
    by code_simp
  have rd: "sys_read 4 ?n tracing_host
      = (fst (sys_read 4 ?n tracing_host), snd (sys_read 4 ?n tracing_host))"
    by simp
  have r: "fst (sys_read 4 ?n tracing_host) = RErr EAGAIN"
    by code_simp
  have h0: "history tracing_host = []"
    by code_simp
  have np: "get_nprocs tracing_host = (fst (get_nprocs tracing_host), snd (get_nprocs tracing_host))"
    by simp
  have idle: "idle_streams tracing_tracer tracing_host [0..<fst (get_nprocs tracing_host)]"
    by code_simp
  have ev: "EvNprocs (fst (get_nprocs tracing_host))
              # would_block_reads tracing_tracer [0..<fst (get_nprocs tracing_host)]
            = [EvNprocs 2, EvRead 4 (RErr EAGAIN), EvRead 6 (RErr EAGAIN)]"
    by code_simp
  note main = CopyCPUBuffer_no_data [OF t b, of 4 5 tracing_host]
  from main rd nd have
    "CopyCPUBuffer 4 5 tracing_tracer tracing_host = Inr (OkStatus, snd (sys_read 4 ?n tracing_host))"
    "history (snd (sys_read 4 ?n tracing_host))
       = history tracing_host @ [EvRead 4 (fst (sys_read 4 ?n tracing_host))]"
    by blast+
  moreover from main np idle have
    "\<exists>w'. CopyCPUBuffers tracing_tracer tracing_host = Inr (OkStatus, w')
         \<and> file_content w' = file_content tracing_host
         \<and> history w' = history tracing_host @ EvNprocs (fst (get_nprocs tracing_host))
              # would_block_reads tracing_tracer [0..<fst (get_nprocs tracing_host)]"
    by blast
  moreover from CopyCPUBuffer_no_data [OF t b, of 6 7 faulty_host] f' f(2) have
    "\<exists>evs r. history (snd (projr ?f)) = history faulty_host @ evs @ [EvRead 6 r]
        \<and> read_failed r"
    by blast
  ultimately show ?thesis using t b nd idle r h0 ev f(2) by simp
qed

text \<open>
  ConfigureFTrace against the plan of the specification. Called while tracing, it returns
  "Already Tracing" and does nothing. Otherwise it does what running \<open>configure_plan\<close> in
  order does, where a step counts as failed when it \<^emph>\<open>returns\<close> a non-ok status: when
  ConfigureFTrace returns ok the calls it made are exactly those of the plan, in that
  order; when it returns an error, the steps before the one that returned it all returned
  ok, the calls made are those of the plan up to and including that step (plus the close
  of set_event after a failed event write), the world is as that step left it, and when
  that step is one of the first two the descriptor table is as before.
\<close>

lemma ConfigureFTrace_follows_plan:
  assumes "ConfigureFTrace s w = (st, s', w')"
  shows "(is_tracing s \<longrightarrow> st = InternalError ''Already Tracing'' \<and> s' = s \<and> w' = w)
    \<and> (\<not> is_tracing s \<longrightarrow>
     (\<exists>efd evs.
        run_steps (configure_plan s) (s, - 1) w = (st, (s', efd), w')
      \<and> history w' = history w @ evs
      \<and> (ok st \<longrightarrow> map call_of evs = map (step_call (kernel_trace_root s)) (configure_plan s))
      \<and> (\<not> ok st \<longrightarrow>
           (\<exists>pre a post c1 w1.
              configure_plan s = pre @ a # post
              \<and> run_steps pre (s, - 1) w = (OkStatus, c1, w1)
              \<and> perform a c1 w1 = (st, (s', efd), w')
              \<and> map call_of evs = map (step_call (kernel_trace_root s)) (pre @ [a]) @ cleanup a
              \<and> (length pre < 2 \<longrightarrow> open_fds w' = open_fds w)))))"
proof (rule conjI; rule impI)
  assume "is_tracing s"
  with assms show "st = InternalError ''Already Tracing'' \<and> s' = s \<and> w' = w"
    by (simp add: ConfigureFTrace_def)
next
  assume nt: "\<not> is_tracing s"
  show "\<exists>efd evs.
        run_steps (configure_plan s) (s, - 1) w = (st, (s', efd), w')
      \<and> history w' = history w @ evs
      \<and> (ok st \<longrightarrow> map call_of evs = map (step_call (kernel_trace_root s)) (configure_plan s))
      \<and> (\<not> ok st \<longrightarrow>
           (\<exists>pre a post c1 w1.
              configure_plan s = pre @ a # post
              \<and> run_steps pre (s, - 1) w = (OkStatus, c1, w1)
              \<and> perform a c1 w1 = (st, (s', efd), w')
              \<and> map call_of evs = map (step_call (kernel_trace_root s)) (pre @ [a]) @ cleanup a
              \<and> (length pre < 2 \<longrightarrow> open_fds w' = open_fds w)))"
  proof -
    let ?root = "kernel_trace_root s"
    obtain st0 s0 efd w0 where r0:
      "run_steps (configure_plan s) (s, - 1) w = (st0, (s0, efd), w0)"
      by (cases "run_steps (configure_plan s) (s, - 1) w") auto
    with ConfigureFTrace_run [OF nt, of w "- 1"] assms
    have r: "run_steps (configure_plan s) (s, - 1) w = (st, (s', efd), w')"
      by (simp add: finish_def)
    show ?thesis
    proof (cases "ok st")
      case True
      from run_steps_ok [OF r True] obtain evs where
        "history w' = history w @ evs"
        "map call_of evs = map (step_call ?root) (configure_plan s)"
        by auto
      with r True show ?thesis by blast
    next
      case False
      from run_steps_failed [OF r False] obtain pre a post c1 w1 where f:
        "configure_plan s = pre @ a # post"
        "run_steps pre (s, - 1) w = (OkStatus, c1, w1)"
        "perform a c1 w1 = (st, (s', efd), w')"
        by blast
      from run_steps_ok [OF f(2)] obtain e1 where e1:
        "history w1 = history w @ e1" "map call_of e1 = map (step_call ?root) pre"
        by (auto simp: ok_OkStatus)
      from run_steps_root [OF f(2)] have root1: "kernel_trace_root (fst c1) = ?root" by simp
      from perform_effect [OF f(3)] False root1 obtain ea where ea:
        "history w' = history w1 @ ea" "map call_of ea = step_call ?root a # cleanup a"
        by auto
      have h: "history w' = history w @ (e1 @ ea)" using e1(1) ea(1) by simp
      have calls: "map call_of (e1 @ ea) = map (step_call ?root) (pre @ [a]) @ cleanup a"
        using e1(2) ea(2) by simp
      have guard: "open_fds w' = open_fds w" if short: "length pre < 2"
      proof (cases pre)
        case Nil
        with f(1) have "a = WriteControl ''tracing_on'' ''0''"
          by (simp add: configure_plan_def)
        with Nil f(2,3) show ?thesis
          by (cases c1) (auto split: prod.splits dest!: WriteString_effect)
      next
        case (Cons x xs)
        with short have xs: "xs = []" by simp
        with Cons f(1) have x: "x = WriteControl ''tracing_on'' ''0''" and a: "a = AcquireGuard"
          by (simp_all add: configure_plan_def)
        from Cons xs x f(2) have "open_fds w1 = open_fds w"
          by (auto split: prod.splits if_splits dest!: WriteString_effect)
        moreover from a f(3) False have "open_fds w' = open_fds w1"
          by (cases c1) (auto simp: ok_OkStatus split: prod.splits if_splits dest!: sys_open_effect)
        ultimately show ?thesis by simp
      qed
      from f h calls guard have
        "configure_plan s = pre @ a # post
          \<and> run_steps pre (s, - 1) w = (OkStatus, c1, w1)
          \<and> perform a c1 w1 = (st, (s', efd), w')
          \<and> map call_of (e1 @ ea) = map (step_call ?root) (pre @ [a]) @ cleanup a
          \<and> (length pre < 2 \<longrightarrow> open_fds w' = open_fds w)"
        by simp
      with r h False show ?thesis by blast
    qed
  qed
qed

text \<open>
  C4 (the code at the failing input). When \<^verbatim>\<open>tracing_on\<close> cannot be opened for writing,
  the first sub-step fails: nothing is written and tracing stays on. WriteString returns
  ok all the same, so the configuration is not aborted and no failure is returned:
  ConfigureFTrace opens the guard, makes every later call of the plan, writes the other
  control files and returns ok. When no control file can be opened it still makes all nine
  calls and returns ok, with nothing written to any control file. On a host without
  failures the four control files hold "0", "nop", "disable_on_free" and the buffer size;
  and a failure that is reported, the open of \<^verbatim>\<open>free_buffer\<close>, does abort the
  configuration after the second call, with that failure returned and no descriptor opened.
\<close>

theorem ConfigureFTrace_ignores_failed_write:
  "(case ConfigureFTrace fresh_tracer stuck_switch_host of
      (st, s', w') \<Rightarrow>
        st = OkStatus
        \<and> hd (history w') = EvOfstream ''/t/tracing_on'' ''0'' OpenFails
        \<and> file_content stuck_switch_host ''/t/tracing_on'' = ''1''
        \<and> file_content w' ''/t/tracing_on'' = ''1''
        \<and> map call_of (history w')
            = [CWrite ''/t/tracing_on'' ''0'', COpen ''/t/free_buffer'',
               CWrite ''/t/current_tracer'' ''nop'',
               CWrite ''/t/trace_options'' ''disable_on_free'',
               CWrite ''/t/buffer_size_kb'' ''4096'', COpen ''/t/set_event'',
               CEvent ''sched:sched_switch'', CEvent ''sched:sched_wakeup'', CClose]
        \<and> free_fd s' = 3 \<and> map_of (open_fds w') 3 = Some ''/t/free_buffer''
        \<and> file_content w' ''/t/current_tracer'' = ''nop''
        \<and> file_content w' ''/t/trace_options'' = ''disable_on_free''
        \<and> file_content w' ''/t/buffer_size_kb'' = ''4096'')
   \<and> (case ConfigureFTrace fresh_tracer sealed_host of
        (st, s', w') \<Rightarrow>
          st = OkStatus
          \<and> map call_of (history w')
              = [CWrite ''/t/tracing_on'' ''0'', COpen ''/t/free_buffer'',
                 CWrite ''/t/current_tracer'' ''nop'',
                 CWrite ''/t/trace_options'' ''disable_on_free'',
                 CWrite ''/t/buffer_size_kb'' ''4096'', COpen ''/t/set_event'',
                 CEvent ''sched:sched_switch'', CEvent ''sched:sched_wakeup'', CClose]
          \<and> file_content w' ''/t/tracing_on'' = []
          \<and> file_content w' ''/t/current_tracer'' = []
          \<and> file_content w' ''/t/trace_options'' = []
          \<and> file_content w' ''/t/buffer_size_kb'' = [])
   \<and> (case ConfigureFTrace fresh_tracer calm_host of
        (st, s', w') \<Rightarrow>
          st = OkStatus
          \<and> file_content w' ''/t/tracing_on'' = ''0''
          \<and> file_content w' ''/t/current_tracer'' = ''nop''
          \<and> file_content w' ''/t/trace_options'' = ''disable_on_free''
          \<and> file_content w' ''/t/buffer_size_kb'' = ''4096'')
   \<and> (case ConfigureFTrace fresh_tracer guardless_host of
        (st, s', w') \<Rightarrow>
          st = InternalError ''unable to open free_buffer file''
          \<and> map call_of (history w')
              = [CWrite ''/t/tracing_on'' ''0'', COpen ''/t/free_buffer'']
          \<and> open_fds w' = open_fds guardless_host)"
  by code_simp

text \<open>
  C5. In a drain pass, once the drain of CPU \<open>i\<close> fails after the CPUs below it were
  drained, the pass returns that failure with the world as that drain left it: no CPU
  above \<open>i\<close> is touched. In the capture loop, after any number of ticks whose passes
  succeeded, a pass that fails inside the deadline ends the loop: the loop returns the
  failure and the world of that pass, so no further pass is made, and every file holds,
  as a prefix, the bytes it held at each earlier tick. Conversely a failure returned by
  the loop is the failure of the last pass of such a run of ticks. Whatever the loop
  returns, every file keeps the bytes it had at the start: the loop only appends.
\<close>

theorem drain_failure_ends_capture:
  assumes "is_tracing s"
  shows "(\<forall>n w1 i sti wi st w'.
            get_nprocs w = (n, w1) \<and> i < n \<and> i < length (fds s)
            \<and> drain_cpus [0..<i] s w1 = Inr (sti, wi) \<and> ok sti
            \<and> CopyCPUBuffer (fst (fds s ! i)) (snd (fds s ! i)) s wi = Inr (st, w') \<and> \<not> ok st
            \<longrightarrow> CopyCPUBuffers s w = Inr (st, w'))
    \<and> (\<forall>deadline ws st w'.
            ticks deadline s (w # ws) \<and> clock (last (w # ws)) \<le> deadline
            \<and> CopyCPUBuffers s (last (w # ws)) = Inr (st, w') \<and> \<not> ok st
            \<longrightarrow> capture_loop deadline s w = Inr (st, w')
                \<and> (\<forall>v\<in>set (w # ws). \<forall>p. prefix (file_content v p) (file_content w' p)))
    \<and> (\<forall>deadline st w'.
            capture_loop deadline s w = Inr (st, w') \<and> \<not> ok st
            \<longrightarrow> (\<exists>ws. ticks deadline s (w # ws) \<and> clock (last (w # ws)) \<le> deadline
                   \<and> CopyCPUBuffers s (last (w # ws)) = Inr (st, w')))
    \<and> (\<forall>deadline st w'.
            capture_loop deadline s w = Inr (st, w')
            \<longrightarrow> (\<forall>p. prefix (file_content w p) (file_content w' p)))"
proof (intro conjI allI impI ballI)
  fix n w1 i sti wi st w'
  assume a: "get_nprocs w = (n, w1) \<and> i < n \<and> i < length (fds s)
            \<and> drain_cpus [0..<i] s w1 = Inr (sti, wi) \<and> ok sti
            \<and> CopyCPUBuffer (fst (fds s ! i)) (snd (fds s ! i)) s wi = Inr (st, w') \<and> \<not> ok st"
  then have "[0..<n] = [0..<i] @ i # [Suc i..<n]"
    by (metis upt_conv_Cons less_imp_le_nat upt_add_eq_append le_add_diff_inverse zero_le)
  with a have "drain_cpus [0..<n] s w1 = Inr (st, w')"
    by (simp add: drain_cpus_append)
  with a assms show "CopyCPUBuffers s w = Inr (st, w')"
    by (simp add: CopyCPUBuffers_def)
next
  fix deadline ws st w'
  assume a: "ticks deadline s (w # ws) \<and> clock (last (w # ws)) \<le> deadline
            \<and> CopyCPUBuffers s (last (w # ws)) = Inr (st, w') \<and> \<not> ok st"
  define l where "l = last (w # ws)"
  from a have l: "clock l \<le> deadline" "CopyCPUBuffers s l = Inr (st, w')" "\<not> ok st"
    unfolding l_def by blast+
  then have "capture_loop deadline s l = Inr (st, w')"
    by (simp add: capture_loop.simps [of deadline s l])
  moreover from a have "capture_loop deadline s w = capture_loop deadline s l"
    unfolding l_def by (blast intro: capture_loop_ticks)
  ultimately show "capture_loop deadline s w = Inr (st, w')" by simp
  fix v p
  assume v: "v \<in> set (w # ws)"
  have "calm_step v (last (w # ws))" by (rule ticks_calm [OF conjunct1 [OF a] v])
  moreover have "calm_step (last (w # ws)) w'"
    by (rule CopyCPUBuffers_calm [OF l(2) [unfolded l_def]])
  ultimately have "calm_step v w'" by (rule calm_step_trans)
  then show "prefix (file_content v p) (file_content w' p)"
    by (simp add: calm_step_def)
next
  fix deadline st w'
  assume b: "capture_loop deadline s w = Inr (st, w') \<and> \<not> ok st"
  show "\<exists>ws. ticks deadline s (w # ws) \<and> clock (last (w # ws)) \<le> deadline
                   \<and> CopyCPUBuffers s (last (w # ws)) = Inr (st, w')"
    by (rule capture_loop_failed_ticks [OF conjunct1 [OF b] conjunct2 [OF b]])
next
  fix deadline st w' p
  assume "capture_loop deadline s w = Inr (st, w')"
  then have "calm_step w w'" by (rule capture_loop_calm)
  then show "prefix (file_content w p) (file_content w' p)"
    by (simp add: calm_step_def)
qed

theorem drain_failure_ends_capture_witness:
  "is_tracing tracing_tracer
   \<and> ticks 1000 tracing_tracer [late_fault_host, late_fault_tick2]
   \<and> clock late_fault_tick2 \<le> 1000
   \<and> \<not> ok (fst (projr (CopyCPUBuffers tracing_tracer late_fault_tick2)))
   \<and> CopyCPUBuffers tracing_tracer late_fault_tick2
       = CopyCPUBuffer 4 5 tracing_tracer (snd (get_nprocs late_fault_tick2))
   \<and> capture_loop 1000 tracing_tracer late_fault_host
       = CopyCPUBuffers tracing_tracer late_fault_tick2
   \<and> file_content late_fault_tick2 ''/tmp/traces/cpu0'' = ''ab''
   \<and> prefix (file_content late_fault_tick2 ''/tmp/traces/cpu0'')
        (file_content (snd (projr (capture_loop 1000 tracing_tracer late_fault_host)))
           ''/tmp/traces/cpu0'')
   \<and> file_content (snd (projr (capture_loop 1000 tracing_tracer late_fault_host)))
        ''/tmp/traces/cpu0'' = ''abcd''
   \<and> pipes (snd (projr (capture_loop 1000 tracing_tracer late_fault_host)))
        ''/t/per_cpu/cpu1/trace_pipe_raw'' = [RData ''xy'']
   \<and> history (snd (projr (capture_loop 1000 tracing_tracer late_fault_host)))
       = [EvNprocs 2, EvRead 4 (RData ''ab''), EvWrite 5 ''ab'' 2, EvRead 4 (RErr 11),
          EvRead 6 (RErr 11), EvSleep 100, EvNprocs 2, EvRead 4 (RData ''cd''),
          EvWrite 5 ''cd'' 2, EvRead 4 (RErr 5)]"
proof -
  let ?s = tracing_tracer and ?w = late_fault_host and ?v = late_fault_tick2
  let ?p = "CopyCPUBuffers ?s ?w"
  let ?v1 = "snd (get_nprocs ?v)"
  let ?c = "CopyCPUBuffer 4 5 ?s ?v1"
  have t: "is_tracing ?s" by code_simp
  note first = drain_failure_ends_capture [OF t, of ?w]
  note second = drain_failure_ends_capture [OF t, of ?v]
  have p: "\<not> isl ?p" "ok (fst (projr ?p))" "clock ?w \<le> 1000" by code_simp+
  have tk: "ticks 1000 ?s (?w # [?v])"
    using p by (cases ?p) (auto simp: late_fault_tick2_def)
  have np: "get_nprocs ?v = (fst (get_nprocs ?v), ?v1)" by simp
  have i: "0 < fst (get_nprocs ?v)" "0 < length (fds ?s)"
    "fst (fds ?s ! 0) = 4" "snd (fds ?s ! 0) = 5" by code_simp+
  have d: "drain_cpus [0..<0] ?s ?v1 = Inr (OkStatus, ?v1)" "ok OkStatus"
    by (simp_all add: ok_OkStatus)
  have c: "\<not> isl ?c" "\<not> ok (fst (projr ?c))" by code_simp+
  then have c': "CopyCPUBuffer (fst (fds ?s ! 0)) (snd (fds ?s ! 0)) ?s ?v1
      = Inr (fst (projr ?c), snd (projr ?c))"
    using i by simp
  from second np i(1,2) d c' c(2)
  have pass: "CopyCPUBuffers ?s ?v = Inr (fst (projr ?c), snd (projr ?c))"
    by blast
  have cl: "clock ?v \<le> 1000" by code_simp
  have lst: "last (?w # [?v]) = ?v" by simp
  from tk cl pass c(2)
  have "ticks 1000 ?s (?w # [?v]) \<and> clock (last (?w # [?v])) \<le> 1000
      \<and> CopyCPUBuffers ?s (last (?w # [?v])) = Inr (fst (projr ?c), snd (projr ?c))
      \<and> \<not> ok (fst (projr ?c))"
    unfolding lst by blast
  with first
  have loop: "capture_loop 1000 ?s ?w = Inr (fst (projr ?c), snd (projr ?c))"
    and kept: "\<forall>v\<in>set (?w # [?v]). \<forall>p.
        prefix (file_content v p) (file_content (snd (projr ?c)) p)"
    by blast+
  from kept
  have pre: "prefix (file_content ?v ''/tmp/traces/cpu0'')
          (file_content (snd (projr ?c)) ''/tmp/traces/cpu0'')"
    by simp
  have e: "file_content ?v ''/tmp/traces/cpu0'' = ''ab''"
    "file_content (snd (projr ?c)) ''/tmp/traces/cpu0'' = ''abcd''"
    "pipes (snd (projr ?c)) ''/t/per_cpu/cpu1/trace_pipe_raw'' = [RData ''xy'']"
    "history (snd (projr ?c))
       = [EvNprocs 2, EvRead 4 (RData ''ab''), EvWrite 5 ''ab'' 2, EvRead 4 (RErr 11),
          EvRead 6 (RErr 11), EvSleep 100, EvNprocs 2, EvRead 4 (RData ''cd''),
          EvWrite 5 ''cd'' 2, EvRead 4 (RErr 5)]"
    by code_simp+
  from t tk cl pass loop c pre e show ?thesis by simp
qed

text \<open>
  C6 (the code at the failing input). When the control file cannot be opened, the stream
  carries \<^verbatim>\<open>failbit\<close> only; WriteString tests \<^verbatim>\<open>bad()\<close>, so it returns ok although
  nothing was written.
\<close>

theorem WriteString_open_failure_unreported:
  "fst (WriteString ''/t/tracing_on'' ''1'' sealed_host) = OkStatus
   \<and> history (snd (WriteString ''/t/tracing_on'' ''1'' sealed_host))
       = [EvOfstream ''/t/tracing_on'' ''1'' OpenFails]
   \<and> file_content (snd (WriteString ''/t/tracing_on'' ''1'' sealed_host)) ''/t/tracing_on'' = []"
  by code_simp

text \<open>
  C7 (as the code has it). In a drain pass made while tracing, whenever a read fails with
  another error than EAGAIN, that read is the last call of the pass, it is a read on the
  read side of some stream pair \<open>fds ! i\<close>, and the status the pass returns is
  "Unable to read cpu file " followed by the number of that file descriptor, not by the CPU
  index \<open>i\<close>. The pass returns ok exactly when no read failed that way.
\<close>

theorem CopyCPUBuffers_error_names_descriptor:
  assumes "is_tracing s" and "CopyCPUBuffers s w = Inr (st, w')"
  shows "\<exists>evs. history w' = history w @ evs
    \<and> (ok st \<longleftrightarrow> no_failed_read evs)
    \<and> (\<forall>fd r. EvRead fd r \<in> set evs \<and> read_failed r \<longrightarrow>
          last evs = EvRead fd r
          \<and> (\<exists>i<length (fds s). fd = fst (fds s ! i))
          \<and> st = InternalError (''Unable to read cpu file '' @ to_string fd))"
proof -
  obtain n w1 where n: "get_nprocs w = (n, w1)" by (cases "get_nprocs w")
  then have h1: "history w1 = history w @ [EvNprocs n]"
    by (auto simp: get_nprocs_def record_event_def Let_def)
  from n assms have d: "drain_cpus [0..<n] s w1 = Inr (st, w')"
    by (simp add: CopyCPUBuffers_def)
  from drain_cpus_reads [OF assms(1) d] obtain evs where
    evs: "history w' = history w1 @ evs" "ok st \<longrightarrow> no_failed_read evs"
      "\<not> ok st \<longrightarrow>
            (\<exists>pre i r. evs = pre @ [EvRead (fst (fds s ! i)) r]
               \<and> no_failed_read pre \<and> read_failed r \<and> i < length (fds s)
               \<and> st = InternalError
                        (''Unable to read cpu file '' @ to_string (fst (fds s ! i))))"
    by blast
  let ?all = "EvNprocs n # evs"
  have h: "history w' = history w @ ?all" using h1 evs(1) by simp
  have clean: "no_failed_read xs \<Longrightarrow> EvRead fd r \<in> set xs \<Longrightarrow> \<not> read_failed r" for xs fd r
    by (auto simp: no_failed_read_def list_all_iff)
  show ?thesis
  proof (cases "ok st")
    case True
    with evs(2) have c: "no_failed_read ?all" by simp
    with True h clean [OF c] show ?thesis by blast
  next
    case False
    with evs(3) obtain pre i r where p:
      "evs = pre @ [EvRead (fst (fds s ! i)) r]" "no_failed_read pre" "read_failed r"
      "i < length (fds s)"
      "st = InternalError (''Unable to read cpu file '' @ to_string (fst (fds s ! i)))"
      by blast
    have dirty: "\<not> no_failed_read ?all" using p(1,3) by simp
    have "last ?all = EvRead fd r' \<and> (\<exists>i<length (fds s). fd = fst (fds s ! i))
          \<and> st = InternalError (''Unable to read cpu file '' @ to_string fd)"
      if "EvRead fd r' \<in> set ?all \<and> read_failed r'" for fd r'
    proof -
      from that p(1) have "EvRead fd r' \<in> set pre \<or> EvRead fd r' = EvRead (fst (fds s ! i)) r"
        by auto
      with clean [OF p(2)] that have "fd = fst (fds s ! i)" "r' = r" by auto
      with p show ?thesis by auto
    qed
    with h False dirty show ?thesis by blast
  qed
qed

theorem CopyCPUBuffers_error_names_descriptor_witness:
  "is_tracing tracing_tracer
   \<and> \<not> isl (CopyCPUBuffers tracing_tracer faulty_host)
   \<and> EvRead 6 (RErr 5) \<in> set (history (snd (projr (CopyCPUBuffers tracing_tracer faulty_host))))
   \<and> read_failed (RErr 5)
   \<and> last (history (snd (projr (CopyCPUBuffers tracing_tracer faulty_host)))) = EvRead 6 (RErr 5)
   \<and> fst (projr (CopyCPUBuffers tracing_tracer faulty_host))
       = InternalError (''Unable to read cpu file '' @ to_string 6)"
proof -
  let ?x = "CopyCPUBuffers tracing_tracer faulty_host"
  have t: "is_tracing tracing_tracer" by code_simp
  have x: "\<not> isl ?x" by code_simp
  then have x': "?x = Inr (fst (projr ?x), snd (projr ?x))" by simp
  have h0: "history faulty_host = []" by code_simp
  have m: "EvRead 6 (RErr 5) \<in> set (history (snd (projr ?x)))" by code_simp
  have rf: "read_failed (RErr 5)" by code_simp
  from CopyCPUBuffers_error_names_descriptor [OF t x'] h0 obtain evs where
    evs: "history (snd (projr ?x)) = evs"
      "\<forall>fd r. EvRead fd r \<in> set evs \<and> read_failed r \<longrightarrow>
          last evs = EvRead fd r
          \<and> (\<exists>i<length (fds tracing_tracer). fd = fst (fds tracing_tracer ! i))
          \<and> fst (projr ?x) = InternalError (''Unable to read cpu file '' @ to_string fd)"
    by auto
  from evs m rf have
    "last (history (snd (projr ?x))) = EvRead 6 (RErr 5)
     \<and> fst (projr ?x) = InternalError (''Unable to read cpu file '' @ to_string 6)"
    by blast
  with t x m rf show ?thesis by simp
qed

text \<open>
  The claim as written fails: on \<open>faulty_host\<close> the read of CPU 1 fails and the error
  reads "Unable to read cpu file 6"; the index 1 occurs nowhere in it.
\<close>

theorem CopyCPUBuffers_error_counterexample:
  "(case CopyCPUBuffers tracing_tracer faulty_host of
      Inl f \<Rightarrow> False
    | Inr (st, w') \<Rightarrow>
        last (history w') = EvRead (fst (fds tracing_tracer ! 1)) (RErr 5)
        \<and> message st = ''Unable to read cpu file 6''
        \<and> \<not> sublist (to_string 1) (message st))"
  by code_simp

text \<open>
  C8. StopTrace called while the session is not tracing returns the error
  "Not currently in a trace" (the code has one error code, kInternal), makes no call to the
  operating system, and leaves the tracer's fields and the world as they were.
\<close>

theorem StopTrace_not_tracing:
  "\<not> is_tracing s \<Longrightarrow>
     StopTrace final_copy s w = Inr (InternalError ''Not currently in a trace'', s, w)
     \<and> \<not> ok (InternalError ''Not currently in a trace'')"
  by (simp add: StopTrace_def ok_def InternalError_def)

theorem StopTrace_not_tracing_witness:
  "\<not> is_tracing fresh_tracer
   \<and> StopTrace False fresh_tracer calm_host
       = Inr (InternalError ''Not currently in a trace'', fresh_tracer, calm_host)"
  using StopTrace_not_tracing [of fresh_tracer False calm_host]
  by (simp add: fresh_tracer_def)




text \<open>
  C10 (as the code has it). CopyCPUBuffers asks for the CPU count on every call and indexes
  \<open>fds\<close> below that count. While tracing with a positive buffer size: if the count does
  not exceed the number of stream pairs, every access is in bounds and the pass returns;
  an access is out of bounds exactly when the count exceeds the number of pairs and the
  drains of all existing pairs succeed; the first index out of bounds is then the number
  of pairs. A pass that fails on an existing pair returns before it reaches the missing one.
\<close>

theorem CopyCPUBuffers_bounds:
  assumes "is_tracing s" and "0 < buffer_size s" and "get_nprocs w = (n, w1)"
  shows "(n \<le> length (fds s) \<longrightarrow> (\<exists>st w'. CopyCPUBuffers s w = Inr (st, w')))
    \<and> ((\<exists>f. CopyCPUBuffers s w = Inl f) \<longleftrightarrow>
         length (fds s) < n
         \<and> (\<exists>st w2. drain_cpus [0..<length (fds s)] s w1 = Inr (st, w2) \<and> ok st))
    \<and> (\<forall>f. CopyCPUBuffers s w = Inl f \<longrightarrow> f = OutOfBounds (length (fds s)))"
proof -
  let ?k = "length (fds s)"
  have run: "CopyCPUBuffers s w = drain_cpus [0..<n] s w1"
    using assms by (simp add: CopyCPUBuffers_def)
  have safe: "\<exists>st w'. drain_cpus [0..<m] s w1 = Inr (st, w')" if "m \<le> ?k" for m
    using that by (intro drain_cpus_in_bounds [OF assms(1,2)]) auto
  have split: "[0..<n] = [0..<?k] @ ?k # [Suc ?k..<n]" if "?k < n"
    using that
    by (metis upt_conv_Cons less_imp_le_nat upt_add_eq_append le_add_diff_inverse zero_le)
  have over: "drain_cpus [0..<n] s w1 =
      (case drain_cpus [0..<?k] s w1 of
         Inl f \<Rightarrow> Inl f
       | Inr (st, w2) \<Rightarrow> if \<not> ok st then Inr (st, w2) else Inl (OutOfBounds ?k))"
    if "?k < n"
    using split [OF that] by (simp add: drain_cpus_append split: sum.splits prod.splits)
  show ?thesis
  proof (cases "n \<le> ?k")
    case True
    with safe [of n] run show ?thesis by auto
  next
    case False
    then have lt: "?k < n" by simp
    from safe [of ?k] obtain st w2 where d: "drain_cpus [0..<?k] s w1 = Inr (st, w2)"
      by auto
    with over [OF lt] run lt show ?thesis
      by (cases "ok st") auto
  qed
qed

theorem CopyCPUBuffers_bounds_witness:
  "is_tracing hotplug_tracer \<and> 0 < buffer_size hotplug_tracer
   \<and> length (fds hotplug_tracer) < fst (get_nprocs hotplug_host)
   \<and> CopyCPUBuffers hotplug_tracer hotplug_host = Inl (OutOfBounds 1)
   \<and> fst (get_nprocs tracing_host) \<le> length (fds tracing_tracer)
   \<and> \<not> isl (CopyCPUBuffers tracing_tracer tracing_host)"
proof -
  have t2: "is_tracing tracing_tracer" and b2: "0 < buffer_size tracing_tracer"
    and le: "fst (get_nprocs tracing_host) \<le> length (fds tracing_tracer)"
    by code_simp+
  have n2: "get_nprocs tracing_host = (fst (get_nprocs tracing_host), snd (get_nprocs tracing_host))"
    by simp
  from CopyCPUBuffers_bounds [OF t2 b2 n2] le
  have inb: "\<not> isl (CopyCPUBuffers tracing_tracer tracing_host)"
    by auto
  have t: "is_tracing hotplug_tracer" and b: "0 < buffer_size hotplug_tracer"
    by code_simp+
  have n: "get_nprocs hotplug_host = (fst (get_nprocs hotplug_host), snd (get_nprocs hotplug_host))"
    by simp
  have lt: "length (fds hotplug_tracer) < fst (get_nprocs hotplug_host)"
    by code_simp
  have len: "length (fds hotplug_tracer) = 1"
    by code_simp
  have d: "\<not> isl (drain_cpus [0..<length (fds hotplug_tracer)] hotplug_tracer
                   (snd (get_nprocs hotplug_host)))"
    "ok (fst (projr (drain_cpus [0..<length (fds hotplug_tracer)] hotplug_tracer
                   (snd (get_nprocs hotplug_host)))))"
    by code_simp+
  from d(1) obtain st w2 where
    "drain_cpus [0..<length (fds hotplug_tracer)] hotplug_tracer (snd (get_nprocs hotplug_host))
       = Inr (st, w2)"
    by (cases "drain_cpus [0..<length (fds hotplug_tracer)] hotplug_tracer
                 (snd (get_nprocs hotplug_host))") auto
  with d(2) lt CopyCPUBuffers_bounds [OF t b n]
  have "CopyCPUBuffers hotplug_tracer hotplug_host = Inl (OutOfBounds (length (fds hotplug_tracer)))"
    by auto
  with t b lt len le inb show ?thesis by simp
qed

text \<open>
  The equivalence of the claim fails from right to left: on \<open>broken_host\<close> the count (2)
  exceeds the number of pairs (1), and yet every access is in bounds, because the read of
  CPU 0 fails and the pass returns.
\<close>

theorem CopyCPUBuffers_bounds_counterexample:
  "is_tracing hotplug_tracer
   \<and> \<not> isl (CopyCPUBuffers hotplug_tracer broken_host)
   \<and> length (fds hotplug_tracer) < fst (get_nprocs broken_host)"
  by code_simp

end
